theory Spec2Isabelle
  imports Main "HOL-Library.AList"
begin

section \<open>Values and the Python operations the planner uses\<close>

text \<open>
  A page of \<^verbatim>\<open>getHistoryAttachments\<close> and the resume-state file are decoded JSON: Python's
  \<^verbatim>\<open>None\<close>, \<^verbatim>\<open>bool\<close>, \<^verbatim>\<open>int\<close>, \<^verbatim>\<open>str\<close>, \<^verbatim>\<open>list\<close> and \<^verbatim>\<open>dict\<close>. Floating-point numbers are left out of
  the value type. A \<^verbatim>\<open>str\<close> is a \<open>string\<close> holding its UTF-8 bytes: splitting at an ASCII
  character, concatenation, emptiness and the order of two strings are the same on bytes as on
  code points. A \<^verbatim>\<open>dict\<close> is an association list in insertion order, read with \<open>map_of\<close>.
\<close>

datatype json =
    JNull
  | JBool bool
  | JInt int
  | JStr string
  | JList "json list"
  | JObj "(string \<times> json) list"

datatype py_error = KeyError | TypeError | AttributeError | ValueError | IndexError | OSError

definition bind_err :: "'e + 'a \<Rightarrow> ('a \<Rightarrow> 'e + 'b) \<Rightarrow> 'e + 'b" where
  "bind_err m f = (case m of Inl e \<Rightarrow> Inl e | Inr v \<Rightarrow> f v)"

text \<open>\<^verbatim>\<open>not v\<close> is \<open>\<not> truthy v\<close>.\<close>

fun truthy :: "json \<Rightarrow> bool" where
  "truthy JNull = False"
| "truthy (JBool b) = b"
| "truthy (JInt n) = (n \<noteq> 0)"
| "truthy (JStr s) = (s \<noteq> [])"
| "truthy (JList xs) = (xs \<noteq> [])"
| "truthy (JObj kvs) = (kvs \<noteq> [])"

text \<open>\<^verbatim>\<open>v[k]\<close> with a string key: only a dict has string keys; anything else raises TypeError.\<close>

fun getitem :: "json \<Rightarrow> string \<Rightarrow> py_error + json" where
  "getitem (JObj kvs) k = (case map_of kvs k of None \<Rightarrow> Inl KeyError | Some v \<Rightarrow> Inr v)"
| "getitem _ k = Inl TypeError"

text \<open>\<^verbatim>\<open>v.get(k, d)\<close>: only a dict has the method.\<close>

fun get_default :: "json \<Rightarrow> string \<Rightarrow> json \<Rightarrow> py_error + json" where
  "get_default (JObj kvs) k d = (case map_of kvs k of None \<Rightarrow> Inr d | Some v \<Rightarrow> Inr v)"
| "get_default _ k d = Inl AttributeError"

text \<open>Iteration: a list gives its elements, a string its characters, a dict its keys.\<close>

fun py_iter :: "json \<Rightarrow> py_error + json list" where
  "py_iter (JList xs) = Inr xs"
| "py_iter (JStr s) = Inr (map (\<lambda>c. JStr [c]) s)"
| "py_iter (JObj kvs) = Inr (map (\<lambda>kv. JStr (fst kv)) kvs)"
| "py_iter _ = Inl TypeError"

text \<open>Numbers: \<^verbatim>\<open>bool\<close> is a subclass of \<^verbatim>\<open>int\<close>.\<close>

fun as_num :: "json \<Rightarrow> int option" where
  "as_num (JInt n) = Some n"
| "as_num (JBool b) = Some (if b then 1 else 0)"
| "as_num _ = None"

fun str_gt :: "string \<Rightarrow> string \<Rightarrow> bool" where
  "str_gt [] t = False"
| "str_gt (c # cs) [] = True"
| "str_gt (c # cs) (d # ds) = (if c = d then str_gt cs ds else (of_char d :: nat) < of_char c)"

text \<open>\<^verbatim>\<open>a == b\<close> on decoded JSON; it never raises.\<close>

fun py_eq :: "json \<Rightarrow> json \<Rightarrow> bool"
  and list_eq :: "json list \<Rightarrow> json list \<Rightarrow> bool"
  and dict_sub :: "(string \<times> json) list \<Rightarrow> (string \<times> json) list \<Rightarrow> bool" where
  "py_eq JNull b = (b = JNull)"
| "py_eq (JBool x) b = (as_num b = Some (if x then 1 else 0))"
| "py_eq (JInt n) b = (as_num b = Some n)"
| "py_eq (JStr s) b = (b = JStr s)"
| "py_eq (JList xs) b = (case b of JList ys \<Rightarrow> list_eq xs ys | _ \<Rightarrow> False)"
| "py_eq (JObj kvs) b =
     (case b of JObj kws \<Rightarrow> length kvs = length kws \<and> dict_sub kvs kws | _ \<Rightarrow> False)"
| "list_eq [] ys = (ys = [])"
| "list_eq (x # xs) ys = (case ys of [] \<Rightarrow> False | y # ys' \<Rightarrow> py_eq x y \<and> list_eq xs ys')"
| "dict_sub [] kws = True"
| "dict_sub (kv # kvs) kws =
     ((case map_of kws (fst kv) of None \<Rightarrow> False | Some w \<Rightarrow> py_eq (snd kv) w) \<and> dict_sub kvs kws)"

text \<open>
  \<^verbatim>\<open>a > b\<close>: numbers by value, strings and lists lexicographically; every other pair raises
  TypeError.
\<close>

fun py_gt :: "json \<Rightarrow> json \<Rightarrow> py_error + bool"
  and list_gt :: "json list \<Rightarrow> json list \<Rightarrow> py_error + bool" where
  "py_gt (JInt m) b = (case as_num b of Some n \<Rightarrow> Inr (n < m) | None \<Rightarrow> Inl TypeError)"
| "py_gt (JBool x) b =
     (case as_num b of Some n \<Rightarrow> Inr (n < (if x then 1 else 0)) | None \<Rightarrow> Inl TypeError)"
| "py_gt (JStr s) b = (case b of JStr t \<Rightarrow> Inr (str_gt s t) | _ \<Rightarrow> Inl TypeError)"
| "py_gt (JList xs) b = (case b of JList ys \<Rightarrow> list_gt xs ys | _ \<Rightarrow> Inl TypeError)"
| "py_gt JNull b = Inl TypeError"
| "py_gt (JObj kvs) b = Inl TypeError"
| "list_gt [] ys = Inr False"
| "list_gt (x # xs) ys =
     (case ys of [] \<Rightarrow> Inr True
      | y # ys' \<Rightarrow> if py_eq x y then list_gt xs ys' else py_gt x y)"

text \<open>\<^verbatim>\<open>s.split(sep)\<close> for a one-character separator: never an empty list.\<close>

fun split_on :: "char \<Rightarrow> string \<Rightarrow> string list" where
  "split_on c [] = [[]]"
| "split_on c (x # xs) =
     (if x = c then [] # split_on c xs
      else (case split_on c xs of [] \<Rightarrow> [[x]] | w # ws \<Rightarrow> (x # w) # ws))"

text \<open>
  Looking up \<^verbatim>\<open>split\<close> on a value: only a string has the method, anything else raises
  AttributeError.
\<close>

fun str_method :: "json \<Rightarrow> py_error + string" where
  "str_method (JStr s) = Inr s"
| "str_method _ = Inl AttributeError"

text \<open>\<^verbatim>\<open>xs[0]\<close> and \<^verbatim>\<open>xs[-1]\<close>.\<close>

definition first_elem :: "'a list \<Rightarrow> py_error + 'a" where
  "first_elem xs = (case xs of [] \<Rightarrow> Inl IndexError | x # _ \<Rightarrow> Inr x)"

definition last_elem :: "'a list \<Rightarrow> py_error + 'a" where
  "last_elem xs = (case rev xs of [] \<Rightarrow> Inl IndexError | x # _ \<Rightarrow> Inr x)"

text \<open>\<^verbatim>\<open>str(n)\<close> for an integer.\<close>

definition digit_char :: "nat \<Rightarrow> char" where
  "digit_char d = ''0123456789'' ! d"

function str_nat :: "nat \<Rightarrow> string" where
  "str_nat n = (if n < 10 then [digit_char n] else str_nat (n div 10) @ [digit_char (n mod 10)])"
  by pat_completeness auto
termination
  by (relation "measure id") auto

declare str_nat.simps [simp del]

definition str_int :: "int \<Rightarrow> string" where
  "str_int i = (if i < 0 then CHR ''-'' # str_nat (nat (- i)) else str_nat (nat i))"

text \<open>
  What an f-string puts in for a value: \<^verbatim>\<open>str(v)\<close>. For a list or a dict that is Python's
  \<^verbatim>\<open>repr\<close>, which is taken as a parameter.
\<close>

fun py_str :: "(json \<Rightarrow> string) \<Rightarrow> json \<Rightarrow> string" where
  "py_str repr JNull = ''None''"
| "py_str repr (JBool b) = (if b then ''True'' else ''False'')"
| "py_str repr (JInt n) = str_int n"
| "py_str repr (JStr s) = s"
| "py_str repr v = repr v"

text \<open>\<^verbatim>\<open>os.path.join(a, b)\<close> of \<^verbatim>\<open>posixpath\<close>.\<close>

definition os_path_join :: "string \<Rightarrow> string \<Rightarrow> string" where
  "os_path_join a b =
     (if take 1 b = ''/'' then b
      else if a = [] \<or> last a = CHR ''/'' then a @ b
      else a @ ''/'' @ b)"

section \<open>The download planner\<close>

text \<open>A download task is the pair \<^verbatim>\<open>(url, path)\<close>.\<close>

type_synonym task = "string \<times> string"

text \<open>The key of \<^verbatim>\<open>max\<close>: \<^verbatim>\<open>lambda s: s.get("width", 0)\<close>.\<close>

definition width_key :: "json \<Rightarrow> py_error + json" where
  "width_key s = get_default s ''width'' (JInt 0)"

text \<open>
  \<^verbatim>\<open>max(sizes, key=...)\<close>: the builtin keeps the first item and its key, then replaces them by
  a later item only when that item's key is greater.
\<close>

fun max_scan :: "json \<Rightarrow> json \<Rightarrow> json list \<Rightarrow> py_error + json" where
  "max_scan maxitem maxval [] = Inr maxitem"
| "max_scan maxitem maxval (x # xs) =
     bind_err (width_key x) (\<lambda>v.
     bind_err (py_gt v maxval) (\<lambda>g.
       if g then max_scan x v xs else max_scan maxitem maxval xs))"

definition max_by_width :: "json \<Rightarrow> py_error + json" where
  "max_by_width sizes =
     bind_err (py_iter sizes) (\<lambda>xs.
       case xs of [] \<Rightarrow> Inl ValueError
       | x # xs' \<Rightarrow> bind_err (width_key x) (\<lambda>v. max_scan x v xs'))"

text \<open>
  The body of the \<^verbatim>\<open>try\<close> in the planning loop, for one item. \<open>Inl\<close> is an exception,
  \<open>Inr None\<close> the \<^verbatim>\<open>continue\<close> on an empty size list, \<open>Inr (Some t)\<close> the appended task.
\<close>

definition plan_item_body :: "(json \<Rightarrow> string) \<Rightarrow> string \<Rightarrow> json \<Rightarrow> py_error + task option" where
  "plan_item_body repr folder item =
     bind_err (getitem item ''attachment'') (\<lambda>att.
     bind_err (getitem att ''photo'') (\<lambda>photo.
     bind_err (get_default photo ''sizes'' (JList [])) (\<lambda>sizes.
       if \<not> truthy sizes then Inr None
       else
         bind_err (max_by_width sizes) (\<lambda>best.
         bind_err (getitem best ''url'') (\<lambda>url.
         bind_err (str_method url) (\<lambda>u.
         bind_err (first_elem (split_on CHR ''?'' u)) (\<lambda>stem.
         bind_err (last_elem (split_on CHR ''.'' stem)) (\<lambda>ext.
         bind_err (getitem photo ''id'') (\<lambda>pid.
           Inr (Some (u, os_path_join folder
                           (''photo_'' @ py_str repr pid @ ''.'' @ ext))))))))))))"

text \<open>\<^verbatim>\<open>except Exception: continue\<close>: an item that raised plans nothing.\<close>

definition plan_item :: "(json \<Rightarrow> string) \<Rightarrow> string \<Rightarrow> json \<Rightarrow> task option" where
  "plan_item repr folder item =
     (case plan_item_body repr folder item of Inl e \<Rightarrow> None | Inr r \<Rightarrow> r)"

fun plan :: "(json \<Rightarrow> string) \<Rightarrow> string \<Rightarrow> json list \<Rightarrow> task list" where
  "plan repr folder [] = []"
| "plan repr folder (item # items) =
     (case plan_item repr folder item of
        None \<Rightarrow> plan repr folder items
      | Some t \<Rightarrow> t # plan repr folder items)"

section \<open>Shapes of page items\<close>

text \<open>
  The planner reads \<^verbatim>\<open>attachment.photo.{id, sizes[].{url, width}}\<close> of each item. The
  predicates below name the shapes the properties are about; they are not part of the program.
\<close>

definition is_obj :: "json \<Rightarrow> bool" where
  "is_obj v = (case v of JObj kvs \<Rightarrow> True | _ \<Rightarrow> False)"

text \<open>The width a variant counts with: its \<^verbatim>\<open>width\<close> when that is an integer, zero when missing.\<close>

definition has_width :: "json \<Rightarrow> bool" where
  "has_width s = (case s of JObj kvs \<Rightarrow> map_of kvs ''width'' \<noteq> None | _ \<Rightarrow> False)"

definition width_of :: "json \<Rightarrow> int" where
  "width_of s =
     (case s of JObj kvs \<Rightarrow> (case map_of kvs ''width'' of Some (JInt n) \<Rightarrow> n | _ \<Rightarrow> 0) | _ \<Rightarrow> 0)"

definition int_width_variant :: "json \<Rightarrow> bool" where
  "int_width_variant s =
     (case s of
        JObj kvs \<Rightarrow> (case map_of kvs ''width'' of None \<Rightarrow> True | Some (JInt n) \<Rightarrow> True | Some _ \<Rightarrow> False)
      | _ \<Rightarrow> False)"

definition has_str_url :: "json \<Rightarrow> bool" where
  "has_str_url s =
     (case s of JObj kvs \<Rightarrow> (case map_of kvs ''url'' of Some (JStr u) \<Rightarrow> True | _ \<Rightarrow> False) | _ \<Rightarrow> False)"

text \<open>
  A well-formed variant has a string \<^verbatim>\<open>url\<close> and an integer or no \<^verbatim>\<open>width\<close>; a well-formed
  item has an integer \<^verbatim>\<open>id\<close> and a non-empty list of well-formed variants.
\<close>

definition wf_variant :: "json \<Rightarrow> bool" where
  "wf_variant s = (has_str_url s \<and> int_width_variant s)"

definition wf_item :: "json \<Rightarrow> bool" where
  "wf_item item =
     (case item of
        JObj i \<Rightarrow>
          (case map_of i ''attachment'' of
             Some (JObj a) \<Rightarrow>
               (case map_of a ''photo'' of
                  Some (JObj p) \<Rightarrow>
                    (case map_of p ''id'' of Some (JInt n) \<Rightarrow> True | _ \<Rightarrow> False) \<and>
                    (case map_of p ''sizes'' of
                       Some (JList xs) \<Rightarrow> xs \<noteq> [] \<and> list_all wf_variant xs
                     | _ \<Rightarrow> False)
                | _ \<Rightarrow> False)
           | _ \<Rightarrow> False)
      | _ \<Rightarrow> False)"

text \<open>
  An item with something the planner needs missing or unusable: no \<^verbatim>\<open>attachment\<close> or
  \<^verbatim>\<open>photo\<close> object, no \<^verbatim>\<open>id\<close>, a size list that is missing, empty, not a list or holds a
  non-object, or no variant with a string \<^verbatim>\<open>url\<close>.
\<close>

definition unusable_item :: "json \<Rightarrow> bool" where
  "unusable_item item =
     (case item of
        JObj i \<Rightarrow>
          (case map_of i ''attachment'' of
             Some (JObj a) \<Rightarrow>
               (case map_of a ''photo'' of
                  Some (JObj p) \<Rightarrow>
                    map_of p ''id'' = None \<or>
                    (case map_of p ''sizes'' of
                       None \<Rightarrow> True
                     | Some (JList xs) \<Rightarrow>
                         xs = [] \<or> list_ex (\<lambda>s. \<not> is_obj s) xs \<or> list_all (\<lambda>s. \<not> has_str_url s) xs
                     | Some _ \<Rightarrow> True)
                | _ \<Rightarrow> True)
           | _ \<Rightarrow> True)
      | _ \<Rightarrow> True)"

section \<open>The extension of a URL\<close>

text \<open>
  What \<^verbatim>\<open>url.split("?")[0].split(".")[-1]\<close> returns, in closed form: the text after the last
  dot of the text before the first question mark.
\<close>

definition stem_extension :: "string \<Rightarrow> string" where
  "stem_extension u =
     rev (takeWhile (\<lambda>c. c \<noteq> CHR ''.'') (rev (takeWhile (\<lambda>c. c \<noteq> CHR ''?'') u)))"

text \<open>
  The destination as the specification words it: the path component of the URL (scheme and
  authority removed, cut at the query and the fragment, as in RFC 3986, appendix B), its final
  dot-delimited segment, and \<^verbatim>\<open>{outputFolder}/photo_{attachmentId}.{extension}\<close>.
\<close>

definition url_after_authority :: "string \<Rightarrow> string" where
  "url_after_authority u =
     (let sch = takeWhile (\<lambda>c. c \<notin> set '':/?#'') u;
          r = drop (length sch) u;
          a = (if sch \<noteq> [] \<and> take 1 r = '':'' then drop 1 r else u)
      in if take 2 a = ''//'' then dropWhile (\<lambda>c. c \<notin> set ''/?#'') (drop 2 a) else a)"

definition url_path :: "string \<Rightarrow> string" where
  "url_path u = takeWhile (\<lambda>c. c \<notin> set ''?#'') (url_after_authority u)"

definition spec_extension :: "string \<Rightarrow> string" where
  "spec_extension u = last (split_on CHR ''.'' (url_path u))"

definition spec_destination :: "string \<Rightarrow> string \<Rightarrow> string \<Rightarrow> string" where
  "spec_destination folder ident u = folder @ ''/'' @ ''photo_'' @ ident @ ''.'' @ spec_extension u"

section \<open>Example items\<close>

definition example_variant :: "string \<Rightarrow> int \<Rightarrow> json" where
  "example_variant u w = JObj [(''url'', JStr u), (''width'', JInt w)]"

definition example_item :: "int \<Rightarrow> json list \<Rightarrow> json" where
  "example_item n sizes =
     JObj [(''attachment'', JObj [(''photo'', JObj [(''id'', JInt n), (''sizes'', JList sizes)])])]"

definition example_sizes :: "json list" where
  "example_sizes =
     [example_variant ''https://vk.com/a.jpg'' 100, example_variant ''https://vk.com/b.jpg'' 600,
      JObj [(''url'', JStr ''https://vk.com/c.jpg'')]]"

text \<open>An item whose \<^verbatim>\<open>id\<close> is \<^verbatim>\<open>null\<close>, and one with no size list.\<close>

definition example_bad_id :: json where
  "example_bad_id =
     JObj [(''attachment'', JObj [(''photo'', JObj [(''id'', JNull),
        (''sizes'', JList [example_variant ''https://vk.com/c.jpg'' 50])])])]"

definition example_no_sizes :: json where
  "example_no_sizes = JObj [(''attachment'', JObj [(''photo'', JObj [(''id'', JInt 3)])])]"

section \<open>The resume-state file\<close>

text \<open>
  What \<^verbatim>\<open>resume_state.json\<close> holds: no file, a file that cannot be opened or read, a file whose
  text is not JSON, or the JSON text of a value.
\<close>

datatype stored = Absent | Unreadable | Malformed | Valid json

definition path_exists :: "stored \<Rightarrow> bool" where
  "path_exists f = (f \<noteq> Absent)"

text \<open>\<^verbatim>\<open>open(STATE_FILE, "r")\<close> followed by \<^verbatim>\<open>json.load\<close>.\<close>

fun read_json :: "stored \<Rightarrow> py_error + json" where
  "read_json Absent = Inl OSError"
| "read_json Unreadable = Inl OSError"
| "read_json Malformed = Inl ValueError"
| "read_json (Valid v) = Inr v"

text \<open>\<^verbatim>\<open>load_state\<close>: the \<^verbatim>\<open>except Exception\<close> turns every failure of the read into \<^verbatim>\<open>{}\<close>.\<close>

definition load_state :: "stored \<Rightarrow> py_error + json" where
  "load_state f =
     (if path_exists f then
        (case read_json f of Inl e \<Rightarrow> Inr (JObj []) | Inr v \<Rightarrow> Inr v)
      else Inr (JObj []))"

text \<open>
  How a write of the file goes is decided outside the program: it succeeds, the file cannot be
  opened for writing (and stays as it was), or it is opened, which truncates it, and the dump
  fails, leaving the given content.
\<close>

datatype write_outcome = Written | OpenFails | DumpFails stored

text \<open>
  \<^verbatim>\<open>open(STATE_FILE, "w")\<close> followed by \<^verbatim>\<open>json.dump\<close>: the file afterwards and the exception
  raised, if any.
\<close>

fun write_json :: "write_outcome \<Rightarrow> json \<Rightarrow> stored \<Rightarrow> stored \<times> py_error option" where
  "write_json Written v f = (Valid v, None)"
| "write_json OpenFails v f = (f, Some OSError)"
| "write_json (DumpFails left) v f = (left, Some OSError)"

text \<open>\<^verbatim>\<open>save_state\<close>: \<^verbatim>\<open>except Exception: pass\<close>.\<close>

definition save_state :: "write_outcome \<Rightarrow> json \<Rightarrow> stored \<Rightarrow> py_error + stored" where
  "save_state w v f =
     (case write_json w v f of (f', None) \<Rightarrow> Inr f' | (f', Some e) \<Rightarrow> Inr f')"

section \<open>The download executor\<close>

text \<open>
  The paths that exist, with the bytes of the file there. Two path strings are two files: links and
  other names of one file are not modelled.
\<close>

type_synonym files = "string \<rightharpoonup> string"

text \<open>
  What the network and the file system do to a download that is tried: the request or its status
  check raises; the file cannot be opened for writing; or the file is opened and the given bytes
  reach it, after which the stream either ends (\<open>True\<close>) or an exception interrupts it
  (\<open>False\<close>).
\<close>

datatype attempt = GetFails | OpenForWriteFails | Streamed string bool

text \<open>What the program does to the outside, in order.\<close>

datatype event =
    ApiCall "json option"
  | Download task
  | TaskDone task bool
  | StateWrite json write_outcome
  | Print string

text \<open>
  \<^verbatim>\<open>download_photo\<close>: the result, the files afterwards and the request made, if any. Every
  exception after the existence test is caught and gives \<^verbatim>\<open>False\<close>.
\<close>

definition download_photo :: "attempt \<Rightarrow> files \<Rightarrow> task \<Rightarrow> bool \<times> files \<times> event list" where
  "download_photo a fs t =
     (case t of (url, path) \<Rightarrow>
        if fs path \<noteq> None then (False, fs, [])
        else
          (case a of
             GetFails \<Rightarrow> (False, fs, [Download t])
           | OpenForWriteFails \<Rightarrow> (False, fs, [Download t])
           | Streamed bytes ok \<Rightarrow> (ok, fs(path \<mapsto> bytes), [Download t])))"

text \<open>
  The batch of one page: \<^verbatim>\<open>executor.submit\<close> for every task, then the \<^verbatim>\<open>as_completed\<close> loop that
  counts the results that are true. The pool runs up to six tasks at a time; here each task runs to
  its end before the next one starts, in the order of submission, which is the schedule of a pool
  with a single worker. \<open>env i\<close> is what happens to the download of the task at position \<open>i\<close>.
\<close>

fun run_tasks :: "(nat \<Rightarrow> attempt) \<Rightarrow> nat \<Rightarrow> files \<Rightarrow> task list \<Rightarrow> nat \<times> files \<times> event list" where
  "run_tasks env i fs [] = (0, fs, [])"
| "run_tasks env i fs (t # ts) =
     (case download_photo (env i) fs t of (ok, fs1, ev1) \<Rightarrow>
        (case run_tasks env (Suc i) fs1 ts of (n, fs2, ev2) \<Rightarrow>
           ((if ok then 1 else 0) + n, fs2, ev1 @ [TaskDone t ok] @ ev2)))"

section \<open>The fetch loop of \<^verbatim>\<open>main\<close>\<close>

record disk =
  files :: files
  state_file :: stored

text \<open>The result of one call of \<^verbatim>\<open>getHistoryAttachments\<close>.\<close>

datatype api_result = ApiError string | OtherError | Response json

text \<open>
  Everything the outside decides during one iteration of \<^verbatim>\<open>while True\<close>: the result of the
  fetch, the fate of each download, and how the two writes of the state file go.
\<close>

record page_env =
  fetch :: api_result
  attempts :: "nat \<Rightarrow> attempt"
  write1 :: write_outcome
  write2 :: write_outcome

text \<open>
  \<open>Running\<close>: the loop goes on; \<open>Stopped\<close>: it was left by \<^verbatim>\<open>break\<close>; \<open>Crashed\<close>: an
  exception that nothing catches left \<^verbatim>\<open>main\<close>.
\<close>

datatype status = Running | Stopped | Crashed py_error

record loop_state =
  start_from :: json
  state :: "(string \<times> json) list"
  total :: nat
  disk :: disk
  trace :: "event list"
  status :: status

text \<open>
  The part of the loop body after the planning: run the batch, then
  \<^verbatim>\<open>start_from = resp.get("next_from")\<close>, \<^verbatim>\<open>state[str(peer_id)] = start_from\<close>, \<^verbatim>\<open>save_state(state)\<close>,
  and, when there is no next cursor, \<^verbatim>\<open>state.pop\<close>, a second \<^verbatim>\<open>save_state\<close> and \<^verbatim>\<open>break\<close>.
\<close>

definition process_page :: "int \<Rightarrow> page_env \<Rightarrow> json \<Rightarrow> task list \<Rightarrow> loop_state \<Rightarrow> loop_state" where
  "process_page peer_id pe resp tasks s =
     (case run_tasks (attempts pe) 0 (files (disk s)) tasks of (n, fs, evs) \<Rightarrow>
        (case get_default resp ''next_from'' JNull of
           Inl e \<Rightarrow>
             s\<lparr>total := total s + n, disk := (disk s)\<lparr>files := fs\<rparr>, trace := trace s @ evs,
               status := Crashed e\<rparr>
         | Inr nf \<Rightarrow>
             (let st1 = AList.update (str_int peer_id) nf (state s) in
              case save_state (write1 pe) (JObj st1) (state_file (disk s)) of
                Inl e \<Rightarrow>
                  s\<lparr>start_from := nf, state := st1, total := total s + n,
                    disk := (disk s)\<lparr>files := fs\<rparr>, trace := trace s @ evs, status := Crashed e\<rparr>
              | Inr f1 \<Rightarrow>
                  if truthy nf then
                    s\<lparr>start_from := nf, state := st1, total := total s + n,
                      disk := \<lparr>files = fs, state_file = f1\<rparr>,
                      trace := trace s @ evs @ [StateWrite (JObj st1) (write1 pe)]\<rparr>
                  else
                    (let st2 = AList.delete (str_int peer_id) st1 in
                     case save_state (write2 pe) (JObj st2) f1 of
                       Inl e \<Rightarrow>
                         s\<lparr>start_from := nf, state := st2, total := total s + n,
                           disk := \<lparr>files = fs, state_file = f1\<rparr>,
                           trace := trace s @ evs @ [StateWrite (JObj st1) (write1 pe)],
                           status := Crashed e\<rparr>
                     | Inr f2 \<Rightarrow>
                         s\<lparr>start_from := nf, state := st2, total := total s + n,
                           disk := \<lparr>files = fs, state_file = f2\<rparr>,
                           trace := trace s @ evs @ [StateWrite (JObj st1) (write1 pe),
                                                    StateWrite (JObj st2) (write2 pe)],
                           status := Stopped\<rparr>))))"

text \<open>
  One iteration of \<^verbatim>\<open>while True\<close>. The request carries \<^verbatim>\<open>start_from\<close> only when it is truthy. A
  response that is not a dict, or items that are truthy and not iterable, raise outside every
  \<^verbatim>\<open>try\<close>.
\<close>

definition step :: "(json \<Rightarrow> string) \<Rightarrow> string \<Rightarrow> int \<Rightarrow> page_env \<Rightarrow> loop_state \<Rightarrow> loop_state" where
  "step repr folder peer_id pe s =
     (let s0 = s\<lparr>trace := trace s @
                   [ApiCall (if truthy (start_from s) then Some (start_from s) else None)]\<rparr>
      in case fetch pe of
           ApiError e \<Rightarrow>
             s0\<lparr>trace := trace s0 @ [Print (CHR 0x0A # ''VK API error: '' @ e)], status := Stopped\<rparr>
         | OtherError \<Rightarrow>
             s0\<lparr>trace := trace s0 @ [Print (CHR 0x0A # ''Unexpected error while requesting VK API'')],
                status := Stopped\<rparr>
         | Response resp \<Rightarrow>
             (case get_default resp ''items'' (JList []) of
                Inl e \<Rightarrow> s0\<lparr>status := Crashed e\<rparr>
              | Inr items \<Rightarrow>
                  if \<not> truthy items then s0\<lparr>status := Stopped\<rparr>
                  else
                    (case py_iter items of
                       Inl e \<Rightarrow> s0\<lparr>status := Crashed e\<rparr>
                     | Inr its \<Rightarrow> process_page peer_id pe resp (plan repr folder its) s0)))"

text \<open>
  The loop over the successive answers of the outside: the state after a prefix of a run. Once
  the loop has been left, nothing more happens.
\<close>

fun run :: "(json \<Rightarrow> string) \<Rightarrow> string \<Rightarrow> int \<Rightarrow> page_env list \<Rightarrow> loop_state \<Rightarrow> loop_state" where
  "run repr folder peer_id [] s = s"
| "run repr folder peer_id (pe # pes) s =
     (if status s = Running then run repr folder peer_id pes (step repr folder peer_id pe s)
      else s)"

text \<open>
  Before the loop: \<^verbatim>\<open>state = load_state()\<close> and \<^verbatim>\<open>start_from = state.get(str(peer_id))\<close>. The
  token, the prompts, the creation of the folder and the operator's interrupt are left out.
\<close>

definition start :: "int \<Rightarrow> disk \<Rightarrow> py_error + loop_state" where
  "start peer_id d =
     bind_err (load_state (state_file d)) (\<lambda>st.
     bind_err (get_default st (str_int peer_id) JNull) (\<lambda>sf.
       case st of
         JObj kvs \<Rightarrow>
           Inr \<lparr>start_from = sf, state = kvs, total = 0, disk = d, trace = [], status = Running\<rparr>
       | _ \<Rightarrow> Inl AttributeError))"

text \<open>The events of a trace that are writes of the state file, and the tasks it reports done.\<close>

fun is_save :: "event \<Rightarrow> bool" where
  "is_save (StateWrite v w) = True"
| "is_save _ = False"

fun done_tasks :: "event list \<Rightarrow> task list" where
  "done_tasks [] = []"
| "done_tasks (TaskDone t ok # evs) = t # done_tasks evs"
| "done_tasks (e # evs) = done_tasks evs"

fun successes :: "event list \<Rightarrow> nat" where
  "successes [] = 0"
| "successes (TaskDone t ok # evs) = (if ok then 1 else 0) + successes evs"
| "successes (e # evs) = successes evs"

section \<open>An example run\<close>

text \<open>
  The scenario of the specification: conversation 12345, a first page of three items (widths 100
  and 600; width 50; no variants) with the next cursor \<^verbatim>\<open>abc\<close>, then a page without items.
  Every download and every write succeeds; the folder and the state file start empty.
\<close>

definition example_items :: "json list" where
  "example_items =
     [example_item 1 [example_variant ''https://vk.com/a.jpg'' 100,
                      example_variant ''https://vk.com/b.jpg'' 600],
      example_item 2 [example_variant ''https://vk.com/c.jpg'' 50],
      example_item 3 []]"

definition example_page1 :: json where
  "example_page1 = JObj [(''items'', JList example_items), (''next_from'', JStr ''abc'')]"

definition example_page2 :: json where
  "example_page2 = JObj [(''items'', JList [])]"

definition example_env :: "api_result \<Rightarrow> page_env" where
  "example_env r =
     \<lparr>fetch = r, attempts = (\<lambda>i. Streamed ''jpeg'' True), write1 = Written, write2 = Written\<rparr>"

definition example_disk :: disk where
  "example_disk = \<lparr>files = Map.empty, state_file = Absent\<rparr>"

definition example_start :: loop_state where
  "example_start =
     \<lparr>start_from = JNull, state = [], total = 0, disk = example_disk, trace = [],
      status = Running\<rparr>"

text \<open>A later start in a folder that already holds \<^verbatim>\<open>out/photo_1.jpg\<close> with the given bytes.\<close>

definition example_with_file :: "string \<Rightarrow> loop_state" where
  "example_with_file bytes =
     example_start\<lparr>disk := \<lparr>files = [''out/photo_1.jpg'' \<mapsto> bytes], state_file = Absent\<rparr>\<rparr>"

section \<open>Facts about splitting, selection and planning\<close>

lemma split_on_nonempty: "split_on c s \<noteq> []"
  by (induction s) (auto split: list.splits)

lemma length_split_on: "length (split_on c s) = Suc (length (filter (\<lambda>x. x = c) s))"
  by (induction s) (auto split: list.splits)

lemma split_on_none: "c \<notin> set s \<Longrightarrow> split_on c s = [s]"
  by (induction s) (auto split: list.splits)

lemma hd_split_on: "hd (split_on c s) = takeWhile (\<lambda>x. x \<noteq> c) s"
  by (induction s) (auto simp: split_on_nonempty split: list.splits)

lemma last_split_on_app: "c \<notin> set b \<Longrightarrow> last (split_on c (a @ c # b)) = b"
proof (induction a)
  case Nil
  then show ?case by (simp add: split_on_none)
next
  case (Cons x a)
  have "length (split_on c (a @ c # b)) \<ge> 2"
    by (simp add: length_split_on)
  then obtain w w' ws where "split_on c (a @ c # b) = w # w' # ws"
    by (cases "split_on c (a @ c # b)"; cases "tl (split_on c (a @ c # b))") auto
  with Cons show ?case by auto
qed

lemma last_split_on: "last (split_on c s) = rev (takeWhile (\<lambda>x. x \<noteq> c) (rev s))"
proof (cases "c \<in> set s")
  case True
  then obtain a b where s: "s = a @ c # b" and nb: "c \<notin> set b"
    by (meson split_list_last)
  have "takeWhile (\<lambda>x. x \<noteq> c) (rev b @ c # rev a) = rev b"
    using nb by (subst takeWhile_append2) auto
  then show ?thesis using s nb by (simp add: last_split_on_app)
next
  case False
  then have tw: "takeWhile (\<lambda>x. x \<noteq> c) (rev s) = rev s"
    by (auto simp: takeWhile_eq_all_conv)
  have "last (split_on c s) = s" using False by (simp add: split_on_none)
  then show ?thesis unfolding tw by simp
qed

lemma first_elem_split_on: "first_elem (split_on c s) = Inr (takeWhile (\<lambda>x. x \<noteq> c) s)"
  using hd_split_on [of c s] split_on_nonempty [of c s]
  by (cases "split_on c s") (auto simp: first_elem_def)

lemma last_elem_split_on:
  "last_elem (split_on c s) = Inr (rev (takeWhile (\<lambda>x. x \<noteq> c) (rev s)))"
proof -
  have "rev (split_on c s) \<noteq> []" by (simp add: split_on_nonempty)
  then obtain y ys where r: "rev (split_on c s) = y # ys" by (cases "rev (split_on c s)") auto
  then have "split_on c s = rev ys @ [y]" by (metis rev_rev_ident rev.simps(2))
  then have "last (split_on c s) = y" by simp
  then have "y = rev (takeWhile (\<lambda>x. x \<noteq> c) (rev s))" by (metis last_split_on)
  with r show ?thesis by (simp add: last_elem_def)
qed

lemma width_key_int: "int_width_variant s \<Longrightarrow> width_key s = Inr (JInt (width_of s))"
  by (auto simp: int_width_variant_def width_key_def width_of_def split: json.splits option.splits)

lemma width_key_obj: "width_key s = Inr v \<Longrightarrow> is_obj s"
  by (cases s) (auto simp: width_key_def is_obj_def)

lemma max_scan_first_max:
  assumes "int_width_variant m" and "\<forall>s\<in>set xs. int_width_variant s"
  shows "\<exists>b pre post. max_scan m (JInt (width_of m)) xs = Inr b \<and> m # xs = pre @ b # post \<and>
           (\<forall>s\<in>set pre. width_of s < width_of b) \<and> (\<forall>s\<in>set post. width_of s \<le> width_of b)"
  using assms
proof (induction xs arbitrary: m)
  case Nil
  have "m # [] = [] @ m # []" by simp
  then show ?case by fastforce
next
  case (Cons x xs)
  have kx: "width_key x = Inr (JInt (width_of x))"
    using Cons.prems by (simp add: width_key_int)
  show ?case
  proof (cases "width_of m < width_of x")
    case True
    from Cons.IH [of x] Cons.prems obtain b pre post where
      r: "max_scan x (JInt (width_of x)) xs = Inr b" and d: "x # xs = pre @ b # post"
      and lt: "\<forall>s\<in>set pre. width_of s < width_of b" and le: "\<forall>s\<in>set post. width_of s \<le> width_of b"
      by auto
    have "x \<in> set (pre @ b # post)" using d by (metis list.set_intros(1))
    then have "width_of x \<le> width_of b" using lt le by auto
    with True have mb: "width_of m < width_of b" by simp
    have "max_scan m (JInt (width_of m)) (x # xs) = Inr b"
      using kx True r by (simp add: bind_err_def)
    moreover have "m # x # xs = (m # pre) @ b # post" using d by simp
    moreover have "\<forall>s\<in>set (m # pre). width_of s < width_of b" using lt mb by simp
    ultimately show ?thesis using le by blast
  next
    case False
    from Cons.IH [of m] Cons.prems obtain b pre post where
      r: "max_scan m (JInt (width_of m)) xs = Inr b" and d: "m # xs = pre @ b # post"
      and lt: "\<forall>s\<in>set pre. width_of s < width_of b" and le: "\<forall>s\<in>set post. width_of s \<le> width_of b"
      by auto
    have res: "max_scan m (JInt (width_of m)) (x # xs) = Inr b"
      using kx False r by (simp add: bind_err_def)
    show ?thesis
    proof (cases pre)
      case Nil
      then have "b = m" "post = xs" using d by auto
      then have "m # x # xs = [] @ b # (x # post)" by simp
      moreover have "\<forall>s\<in>set (x # post). width_of s \<le> width_of b"
        using le False \<open>b = m\<close> by auto
      ultimately show ?thesis using res by (metis empty_iff list.set(1))
    next
      case (Cons p pre')
      then have pm: "p = m" and xs: "xs = pre' @ b # post" using d by auto
      have "width_of m < width_of b" using lt Cons pm by simp
      with False have "width_of x < width_of b" by simp
      then have "\<forall>s\<in>set (m # x # pre'). width_of s < width_of b"
        using lt Cons pm by simp
      moreover have "m # x # xs = (m # x # pre') @ b # post" using xs by simp
      ultimately show ?thesis using res le by blast
    qed
  qed
qed

lemma max_scan_Inr:
  "max_scan m v xs = Inr b \<Longrightarrow> b \<in> set (m # xs) \<and> (\<forall>s\<in>set xs. is_obj s)"
proof (induction xs arbitrary: m v)
  case Nil
  then show ?case by simp
next
  case (Cons x xs)
  from Cons.prems obtain v' where k: "width_key x = Inr v'"
    by (cases "width_key x") (auto simp: bind_err_def)
  from Cons.prems k obtain g where g: "py_gt v' v = Inr g"
    by (cases "py_gt v' v") (auto simp: bind_err_def)
  have ox: "is_obj x" using k by (rule width_key_obj)
  show ?case
  proof (cases g)
    case True
    then have "max_scan x v' xs = Inr b" using Cons.prems k g by (simp add: bind_err_def)
    from Cons.IH [OF this] ox show ?thesis by auto
  next
    case False
    then have "max_scan m v xs = Inr b" using Cons.prems k g by (simp add: bind_err_def)
    from Cons.IH [OF this] ox show ?thesis by auto
  qed
qed

lemma max_by_width_Inr:
  assumes "max_by_width sizes = Inr b"
  shows "\<exists>xs. sizes = JList xs \<and> b \<in> set xs \<and> (\<forall>s\<in>set xs. is_obj s)"
proof -
  from assms obtain ys where it: "py_iter sizes = Inr ys"
    by (cases "py_iter sizes") (auto simp: max_by_width_def bind_err_def)
  from assms it obtain y ys' where ys: "ys = y # ys'"
    by (cases ys) (auto simp: max_by_width_def bind_err_def)
  from assms it ys obtain v where k: "width_key y = Inr v" and sc: "max_scan y v ys' = Inr b"
    by (cases "width_key y") (auto simp: max_by_width_def bind_err_def)
  have oy: "is_obj y" using k by (rule width_key_obj)
  have all: "b \<in> set ys \<and> (\<forall>s\<in>set ys. is_obj s)"
    using max_scan_Inr [OF sc] oy ys by auto
  have "sizes = JList ys"
    using it oy ys by (cases sizes) (auto simp: is_obj_def)
  with all show ?thesis by blast
qed

lemma plan_append: "plan repr folder (xs @ ys) = plan repr folder xs @ plan repr folder ys"
  by (induction xs) (auto split: option.splits)

lemma no_width_zero: "\<not> has_width b \<Longrightarrow> width_of b = 0"
  by (auto simp: has_width_def width_of_def split: json.splits option.splits)

lemma max_by_width_first_max:
  assumes "xs \<noteq> []" and "\<forall>s\<in>set xs. int_width_variant s"
  shows "\<exists>b pre post. max_by_width (JList xs) = Inr b \<and> xs = pre @ b # post \<and>
           (\<forall>s\<in>set pre. width_of s < width_of b) \<and> (\<forall>s\<in>set post. width_of s \<le> width_of b)"
proof -
  from assms(1) obtain m ys where xs: "xs = m # ys" by (cases xs) auto
  have "max_by_width (JList xs) = max_scan m (JInt (width_of m)) ys"
    using assms(2) xs by (simp add: max_by_width_def bind_err_def width_key_int)
  with max_scan_first_max [of m ys] assms(2) xs show ?thesis by simp
qed

lemma plan_item_Some:
  assumes "plan_item repr folder item = Some (u, p)"
  shows "\<exists>att photo sizes best pid.
           getitem item ''attachment'' = Inr att \<and> getitem att ''photo'' = Inr photo \<and>
           get_default photo ''sizes'' (JList []) = Inr sizes \<and> truthy sizes \<and>
           max_by_width sizes = Inr best \<and> getitem best ''url'' = Inr (JStr u) \<and>
           getitem photo ''id'' = Inr pid \<and>
           p = os_path_join folder (''photo_'' @ py_str repr pid @ ''.'' @ stem_extension u)"
proof -
  from assms obtain att where 1: "getitem item ''attachment'' = Inr att"
    by (cases "getitem item ''attachment''") (auto simp: plan_item_def plan_item_body_def bind_err_def)
  from assms 1 obtain photo where 2: "getitem att ''photo'' = Inr photo"
    by (cases "getitem att ''photo''") (auto simp: plan_item_def plan_item_body_def bind_err_def)
  from assms 1 2 obtain sizes where 3: "get_default photo ''sizes'' (JList []) = Inr sizes"
    by (cases "get_default photo ''sizes'' (JList [])")
       (auto simp: plan_item_def plan_item_body_def bind_err_def)
  from assms 1 2 3 have 4: "truthy sizes"
    by (auto simp: plan_item_def plan_item_body_def bind_err_def split: if_splits)
  from assms 1 2 3 4 obtain best where 5: "max_by_width sizes = Inr best"
    by (cases "max_by_width sizes") (auto simp: plan_item_def plan_item_body_def bind_err_def)
  from assms 1 2 3 4 5 obtain url where 6: "getitem best ''url'' = Inr url"
    by (cases "getitem best ''url''") (auto simp: plan_item_def plan_item_body_def bind_err_def)
  from assms 1 2 3 4 5 6 obtain u' where 7: "url = JStr u'"
    by (cases url) (auto simp: plan_item_def plan_item_body_def bind_err_def)
  from assms 1 2 3 4 5 6 7 obtain pid where 8: "getitem photo ''id'' = Inr pid"
    by (cases "getitem photo ''id''")
       (auto simp: plan_item_def plan_item_body_def bind_err_def first_elem_split_on
          last_elem_split_on)
  from assms 1 2 3 4 5 6 7 8 have "u' = u"
    and "p = os_path_join folder (''photo_'' @ py_str repr pid @ ''.'' @ stem_extension u')"
    by (auto simp: plan_item_def plan_item_body_def bind_err_def first_elem_split_on
          last_elem_split_on stem_extension_def)
  with 1 2 3 4 5 6 7 8 show ?thesis by blast
qed

lemma unusable_not_planned:
  assumes "unusable_item item"
  shows "plan_item repr folder item = None"
proof (rule ccontr)
  assume "plan_item repr folder item \<noteq> None"
  then obtain u p where "plan_item repr folder item = Some (u, p)" by auto
  from plan_item_Some [OF this] obtain att photo sizes best pid where
    1: "getitem item ''attachment'' = Inr att" and 2: "getitem att ''photo'' = Inr photo"
    and 3: "get_default photo ''sizes'' (JList []) = Inr sizes" and 4: "truthy sizes"
    and 5: "max_by_width sizes = Inr best" and 6: "getitem best ''url'' = Inr (JStr u)"
    and 8: "getitem photo ''id'' = Inr pid"
    by blast
  from max_by_width_Inr [OF 5] obtain xs where
    xs: "sizes = JList xs" "best \<in> set xs" "\<forall>s\<in>set xs. is_obj s" by blast
  have hb: "has_str_url best"
    using 6 by (cases best) (auto simp: has_str_url_def split: option.splits)
  from 1 obtain i where i: "item = JObj i" "map_of i ''attachment'' = Some att"
    by (cases item) (auto split: option.splits)
  from 2 obtain a where a: "att = JObj a" "map_of a ''photo'' = Some photo"
    by (cases att) (auto split: option.splits)
  from 3 obtain ph where ph: "photo = JObj ph" by (cases photo) auto
  from 8 ph have idp: "map_of ph ''id'' \<noteq> None" by (auto split: option.splits)
  from 3 4 ph xs(1) have sz: "map_of ph ''sizes'' = Some (JList xs)"
    by (auto split: option.splits)
  have "xs \<noteq> []" using xs(2) by auto
  moreover have "\<not> list_ex (\<lambda>s. \<not> is_obj s) xs" using xs(3) by (simp add: list_ex_iff)
  moreover have "\<not> list_all (\<lambda>s. \<not> has_str_url s) xs" using xs(2) hb by (auto simp: list_all_iff)
  ultimately have "\<not> unusable_item item"
    using i a ph idp sz by (simp add: unusable_item_def)
  with assms show False by simp
qed

lemma wf_item_planned:
  assumes "wf_item item"
  shows "\<exists>t. plan_item repr folder item = Some t"
proof -
  from assms obtain i where i1: "item = JObj i"
    by (cases item) (auto simp: wf_item_def)
  from assms i1 obtain att where i2: "map_of i ''attachment'' = Some att"
    by (cases "map_of i ''attachment''") (auto simp: wf_item_def)
  from assms i1 i2 obtain a where a1: "att = JObj a"
    by (cases att) (auto simp: wf_item_def)
  from assms i1 i2 a1 obtain photo where a2: "map_of a ''photo'' = Some photo"
    by (cases "map_of a ''photo''") (auto simp: wf_item_def)
  from assms i1 i2 a1 a2 obtain p where p1: "photo = JObj p"
    by (cases photo) (auto simp: wf_item_def)
  from assms i1 i2 a1 a2 p1 obtain pid where p2: "map_of p ''id'' = Some pid"
    by (cases "map_of p ''id''") (auto simp: wf_item_def)
  from assms i1 i2 a1 a2 p1 obtain sizes where p3: "map_of p ''sizes'' = Some sizes"
    by (cases "map_of p ''sizes''") (auto simp: wf_item_def)
  from assms i1 i2 a1 a2 p1 p3 obtain xs where p4: "sizes = JList xs"
    by (cases sizes) (auto simp: wf_item_def)
  from assms i1 i2 a1 a2 p1 p3 p4 have xs: "xs \<noteq> []" "list_all wf_variant xs"
    by (auto simp: wf_item_def)
  note i = i1 i2 [unfolded a1] and a = a2 [unfolded p1] and p = p2 p3 [unfolded p4]
  have "\<forall>s\<in>set xs. int_width_variant s" using xs(2) by (auto simp: list_all_iff wf_variant_def)
  from max_by_width_first_max [OF xs(1) this] obtain b pre post where
    b: "max_by_width (JList xs) = Inr b" "xs = pre @ b # post" by blast
  have "b \<in> set xs" using b(2) by simp
  then have "has_str_url b" using xs(2) by (auto simp: list_all_iff wf_variant_def)
  then obtain u where u: "getitem b ''url'' = Inr (JStr u)"
    by (cases b) (auto simp: has_str_url_def split: option.splits json.splits)
  show ?thesis
    using i a p xs(1) b(1) u
    by (simp add: plan_item_def plan_item_body_def bind_err_def first_elem_split_on
          last_elem_split_on)
qed

lemma plan_all_wf: "list_all wf_item xs \<Longrightarrow> length (plan repr folder xs) = length xs"
proof (induction xs)
  case Nil
  then show ?case by simp
next
  case (Cons x xs)
  then have "wf_item x" by simp
  from wf_item_planned [OF this] obtain t where "plan_item repr folder x = Some t" by blast
  with Cons show ?case by simp
qed

lemma str_nat_small: "n < 10 \<Longrightarrow> str_nat n = [digit_char n]"
  by (simp add: str_nat.simps)

lemma str_nat_large: "10 \<le> n \<Longrightarrow> str_nat n = str_nat (n div 10) @ [digit_char (n mod 10)]"
  by (subst str_nat.simps) simp

lemmas eval_str = str_int_def str_nat_small str_nat_large digit_char_def

lemmas eval_plan = plan_item_def plan_item_body_def bind_err_def max_by_width_def width_key_def
  first_elem_def last_elem_def os_path_join_def example_item_def example_variant_def


lemma url_prefix: "\<exists>P. u = P @ url_after_authority u \<and> CHR ''?'' \<notin> set P"
proof -
  define sch where "sch = takeWhile (\<lambda>c. c \<notin> set '':/?#'') u"
  define r where "r = drop (length sch) u"
  define a where "a = (if sch \<noteq> [] \<and> take 1 r = '':'' then drop 1 r else u)"
  define h where "h = (if take 2 a = ''//'' then dropWhile (\<lambda>c. c \<notin> set ''/?#'') (drop 2 a) else a)"
  have hh: "url_after_authority u = h"
    by (simp add: url_after_authority_def Let_def sch_def r_def a_def h_def)
  have "sch = take (length sch) u" unfolding sch_def by (rule takeWhile_eq_take)
  then have u: "u = sch @ r" unfolding r_def by (metis append_take_drop_id)
  have ns: "CHR ''?'' \<notin> set sch" unfolding sch_def by (auto dest: set_takeWhileD)
  have "\<exists>P1. u = P1 @ a \<and> CHR ''?'' \<notin> set P1"
  proof (cases "sch \<noteq> [] \<and> take 1 r = '':''")
    case True
    then have "r = '':'' @ drop 1 r" by (metis append_take_drop_id)
    then have "u = (sch @ '':'') @ drop 1 r" using u by simp
    moreover have "a = drop 1 r" using True by (simp add: a_def)
    moreover have "CHR ''?'' \<notin> set (sch @ '':'')" using ns by simp
    ultimately show ?thesis by metis
  next
    case False
    then have "a = u" by (auto simp: a_def)
    then have "u = [] @ a" by simp
    then show ?thesis by (metis empty_iff list.set(1))
  qed
  then obtain P1 where P1: "u = P1 @ a" "CHR ''?'' \<notin> set P1" by blast
  have "\<exists>P2. a = P2 @ h \<and> CHR ''?'' \<notin> set P2"
  proof (cases "take 2 a = ''//''")
    case True
    define Q where "Q = (\<lambda>c. c \<notin> set ''/?#'')"
    have "a = ''//'' @ drop 2 a" using True by (metis append_take_drop_id)
    also have "drop 2 a = takeWhile Q (drop 2 a) @ dropWhile Q (drop 2 a)" by simp
    finally have "a = (''//'' @ takeWhile Q (drop 2 a)) @ dropWhile Q (drop 2 a)" by simp
    moreover have "h = dropWhile Q (drop 2 a)" using True by (simp add: h_def Q_def)
    moreover have "CHR ''?'' \<notin> set (''//'' @ takeWhile Q (drop 2 a))"
      by (auto simp: Q_def dest: set_takeWhileD)
    ultimately show ?thesis by metis
  next
    case False
    then have "h = a" by (simp add: h_def)
    then have "a = [] @ h" by simp
    then show ?thesis by (metis empty_iff list.set(1))
  qed
  then obtain P2 where P2: "a = P2 @ h" "CHR ''?'' \<notin> set P2" by blast
  have "u = (P1 @ P2) @ h" using P1(1) P2(1) by simp
  moreover have "CHR ''?'' \<notin> set (P1 @ P2)" using P1(2) P2(2) by simp
  ultimately show ?thesis unfolding hh by blast
qed

lemma stem_extension_eq_spec:
  assumes "CHR ''#'' \<notin> set u" and "CHR ''.'' \<in> set (url_path u)"
  shows "stem_extension u = spec_extension u"
proof -
  from url_prefix [of u] obtain P where P: "u = P @ url_after_authority u" "CHR ''?'' \<notin> set P"
    by blast
  define h where "h = url_after_authority u"
  have "set h \<subseteq> set u" using P(1) unfolding h_def by (metis set_append Un_upper2)
  then have nh: "CHR ''#'' \<notin> set h" using assms(1) by auto
  have pth: "url_path u = takeWhile (\<lambda>c. c \<noteq> CHR ''?'') h"
    unfolding url_path_def h_def [symmetric]
    by (rule takeWhile_cong) (use nh in auto)
  have "takeWhile (\<lambda>c. c \<noteq> CHR ''?'') u = takeWhile (\<lambda>c. c \<noteq> CHR ''?'') (P @ h)"
    using P(1) unfolding h_def by simp
  also have "\<dots> = P @ takeWhile (\<lambda>c. c \<noteq> CHR ''?'') h"
    using P(2) by (subst takeWhile_append2) auto
  finally have stem: "takeWhile (\<lambda>c. c \<noteq> CHR ''?'') u = P @ url_path u" using pth by simp
  have "CHR ''.'' \<in> set (rev (url_path u))" using assms(2) by simp
  then have "takeWhile (\<lambda>c. c \<noteq> CHR ''.'') (rev (url_path u) @ rev P)
               = takeWhile (\<lambda>c. c \<noteq> CHR ''.'') (rev (url_path u))"
    by (rule takeWhile_append1) simp
  then show ?thesis
    by (simp add: stem_extension_def spec_extension_def stem last_split_on)
qed

lemma os_path_join_plain:
  "folder \<noteq> [] \<Longrightarrow> last folder \<noteq> CHR ''/'' \<Longrightarrow>
   os_path_join folder (''photo_'' @ rest) = folder @ ''/'' @ ''photo_'' @ rest"
  by (simp add: os_path_join_def)


section \<open>Facts about the executor and the loop\<close>

lemma save_state_Inr: "save_state w v f = Inr (fst (write_json w v f))"
  by (cases w) (simp_all add: save_state_def)

lemma done_tasks_append: "done_tasks (xs @ ys) = done_tasks xs @ done_tasks ys"
  by (induction xs rule: done_tasks.induct) simp_all

lemma successes_append: "successes (xs @ ys) = successes xs + successes ys"
  by (induction xs rule: successes.induct) simp_all

lemma download_photo_existing:
  "fs path \<noteq> None \<Longrightarrow> download_photo a fs (url, path) = (False, fs, [])"
  by (simp add: download_photo_def)

lemma download_photo_cases:
  assumes "download_photo a fs t = (ok, fs', ev)"
  shows "(ev = [] \<or> ev = [Download t]) \<and>
         (\<forall>p b. fs p = Some b \<longrightarrow> fs' p = Some b) \<and>
         (fs (snd t) \<noteq> None \<longrightarrow> ev = [] \<and> \<not> ok)"
  using assms
  by (cases t; cases a) (auto simp: download_photo_def split: if_splits)

lemma run_tasks_spec:
  assumes "run_tasks env i fs ts = (n, fs', evs)"
  shows "done_tasks evs = ts \<and> n = successes evs \<and> list_all (\<lambda>e. \<not> is_save e) evs \<and>
         (\<forall>p b. fs p = Some b \<longrightarrow>
            fs' p = Some b \<and> (\<forall>u. Download (u, p) \<notin> set evs \<and> TaskDone (u, p) True \<notin> set evs))"
  using assms
proof (induction ts arbitrary: i fs n fs' evs)
  case Nil
  then show ?case by simp
next
  case (Cons t ts)
  obtain ok fs1 ev1 where d: "download_photo (env i) fs t = (ok, fs1, ev1)"
    by (cases "download_photo (env i) fs t") auto
  obtain m fs2 ev2 where r: "run_tasks env (Suc i) fs1 ts = (m, fs2, ev2)"
    by (cases "run_tasks env (Suc i) fs1 ts") auto
  from Cons.prems d r have res: "n = (if ok then 1 else 0) + m" "fs' = fs2"
    "evs = ev1 @ [TaskDone t ok] @ ev2" by auto
  note ih = Cons.IH [OF r]
  note dc = download_photo_cases [OF d]
  have e1: "ev1 = [] \<or> ev1 = [Download t]" using dc by blast
  have a: "done_tasks evs = t # ts"
    using e1 ih res by (auto simp: done_tasks_append)
  have b: "n = successes evs"
    using e1 ih res by (auto simp: successes_append)
  have c: "list_all (\<lambda>e. \<not> is_save e) evs"
    using e1 ih res by auto
  have d': "fs' p = Some b \<and> (\<forall>u. Download (u, p) \<notin> set evs \<and> TaskDone (u, p) True \<notin> set evs)"
    if "fs p = Some b" for p b
  proof -
    have f1: "fs1 p = Some b" using dc that by blast
    from ih f1 have f2: "fs2 p = Some b"
      and n2: "\<forall>u. Download (u, p) \<notin> set ev2 \<and> TaskDone (u, p) True \<notin> set ev2" by blast+
    have n1: "Download (u, p) \<notin> set ev1 \<and> TaskDone (u, p) True \<notin> set ev1 \<and>
              (t = (u, p) \<longrightarrow> \<not> ok)" for u
    proof (cases "snd t = p")
      case True
      then have "fs (snd t) \<noteq> None" using that by simp
      then have "ev1 = [] \<and> \<not> ok" using dc by blast
      then show ?thesis by simp
    next
      case False
      then show ?thesis using e1 by (cases t) auto
    qed
    have "Download (u, p) \<notin> set evs \<and> TaskDone (u, p) True \<notin> set evs" for u
      using n1 [of u] n2 res(3) by auto
    with f2 res(2) show ?thesis by simp
  qed
  from a b c d' show ?case by blast
qed

lemma process_page_spec:
  assumes "run_tasks (attempts pe) 0 (files (disk s)) tasks = (n, fs, evs)"
  shows "\<exists>saves. trace (process_page peer_id pe resp tasks s) = trace s @ evs @ saves \<and>
           list_all is_save saves \<and>
           files (disk (process_page peer_id pe resp tasks s)) = fs \<and>
           total (process_page peer_id pe resp tasks s) = total s + n"
  using assms
  by (cases "get_default resp ''next_from'' JNull")
     (auto simp: process_page_def save_state_Inr Let_def)

lemma step_spec:
  "\<exists>new. trace (step repr folder peer_id pe s) = trace s @ new \<and>
         total (step repr folder peer_id pe s) = total s + successes new \<and>
         (\<forall>p b. files (disk s) p = Some b \<longrightarrow>
            files (disk (step repr folder peer_id pe s)) p = Some b \<and>
            (\<forall>u. Download (u, p) \<notin> set new \<and> TaskDone (u, p) True \<notin> set new))"
proof -
  define s0 where
    "s0 = s\<lparr>trace := trace s @ [ApiCall (if truthy (start_from s) then Some (start_from s) else None)]\<rparr>"
  have s0: "trace s0 = trace s @ [ApiCall (if truthy (start_from s) then Some (start_from s) else None)]"
    "total s0 = total s" "disk s0 = disk s"
    by (simp_all add: s0_def)
  have simple: ?thesis
    if "trace (step repr folder peer_id pe s) = trace s0 @ pr" "list_all (\<lambda>e. \<exists>m. e = Print m) pr"
      "total (step repr folder peer_id pe s) = total s0" "disk (step repr folder peer_id pe s) = disk s0"
    for pr
  proof -
    let ?new = "[ApiCall (if truthy (start_from s) then Some (start_from s) else None)] @ pr"
    have "successes ?new = 0" using that(2) by (induction pr) auto
    moreover have "Download t \<notin> set ?new \<and> TaskDone t True \<notin> set ?new" for t
      using that(2) by (auto simp: list_all_iff)
    ultimately show ?thesis using that s0 by (intro exI [of _ ?new]) auto
  qed
  show ?thesis
  proof (cases "fetch pe")
    case (ApiError e)
    then show ?thesis
      by (intro simple [of "[Print (CHR 0x0A # ''VK API error: '' @ e)]"])
         (simp_all add: step_def s0_def)
  next
    case OtherError
    then show ?thesis
      by (intro simple [of "[Print (CHR 0x0A # ''Unexpected error while requesting VK API'')]"])
         (simp_all add: step_def s0_def)
  next
    case (Response resp)
    show ?thesis
    proof (cases "get_default resp ''items'' (JList [])")
      case (Inl e)
      with Response show ?thesis
        by (intro simple [of "[]"]) (simp_all add: step_def s0_def)
    next
      case (Inr items)
      show ?thesis
      proof (cases "truthy items")
        case False
        with Response Inr show ?thesis
          by (intro simple [of "[]"]) (simp_all add: step_def s0_def)
      next
        case True
        show ?thesis
        proof (cases "py_iter items")
          case (Inl e)
          with Response Inr True show ?thesis
            by (intro simple [of "[]"]) (simp_all add: step_def s0_def)
        next
          case its: (Inr its)
          have st: "step repr folder peer_id pe s
                      = process_page peer_id pe resp (plan repr folder its) s0"
            using Response Inr True its by (simp add: step_def s0_def)
          obtain n fs evs where
            r: "run_tasks (attempts pe) 0 (files (disk s0)) (plan repr folder its) = (n, fs, evs)"
            by (cases "run_tasks (attempts pe) 0 (files (disk s0)) (plan repr folder its)") auto
          from process_page_spec [OF r, of peer_id resp] obtain saves where
            p: "trace (process_page peer_id pe resp (plan repr folder its) s0)
                  = trace s0 @ evs @ saves"
               "list_all is_save saves"
               "files (disk (process_page peer_id pe resp (plan repr folder its) s0)) = fs"
               "total (process_page peer_id pe resp (plan repr folder its) s0) = total s0 + n"
            by blast
          note rs = run_tasks_spec [OF r]
          let ?new = "[ApiCall (if truthy (start_from s) then Some (start_from s) else None)]
                        @ evs @ saves"
          have sv: "successes saves = 0 \<and> (\<forall>t. Download t \<notin> set saves \<and> TaskDone t True \<notin> set saves)"
            using p(2) by (induction saves rule: successes.induct) auto
          have "trace (step repr folder peer_id pe s) = trace s @ ?new"
            using st p(1) s0(1) by simp
          moreover have "total (step repr folder peer_id pe s) = total s + successes ?new"
            using st p(4) s0(2) rs sv by (simp add: successes_append)
          moreover have "files (disk (step repr folder peer_id pe s)) p' = Some b \<and>
              (\<forall>u. Download (u, p') \<notin> set ?new \<and> TaskDone (u, p') True \<notin> set ?new)"
            if "files (disk s) p' = Some b" for p' b
            using that st p(3) s0(3) rs sv by auto
          ultimately show ?thesis by blast
        qed
      qed
    qed
  qed
qed

lemma run_spec:
  "\<exists>new. trace (run repr folder peer_id pes s) = trace s @ new \<and>
         total (run repr folder peer_id pes s) = total s + successes new \<and>
         (\<forall>p b. files (disk s) p = Some b \<longrightarrow>
            files (disk (run repr folder peer_id pes s)) p = Some b \<and>
            (\<forall>u. Download (u, p) \<notin> set new \<and> TaskDone (u, p) True \<notin> set new))"
proof (induction pes arbitrary: s)
  case Nil
  have "trace s = trace s @ []" by simp
  then show ?case by (intro exI [of _ "[]"]) simp
next
  case (Cons pe pes)
  show ?case
  proof (cases "status s = Running")
    case False
    then show ?thesis by (intro exI [of _ "[]"]) simp
  next
    case True
    define s1 where "s1 = step repr folder peer_id pe s"
    from step_spec [of repr folder peer_id pe s] obtain n1 where
      a: "trace s1 = trace s @ n1" "total s1 = total s + successes n1"
         "\<forall>p b. files (disk s) p = Some b \<longrightarrow> files (disk s1) p = Some b \<and>
            (\<forall>u. Download (u, p) \<notin> set n1 \<and> TaskDone (u, p) True \<notin> set n1)"
      unfolding s1_def by blast
    from Cons.IH [of s1] obtain n2 where
      b: "trace (run repr folder peer_id pes s1) = trace s1 @ n2"
         "total (run repr folder peer_id pes s1) = total s1 + successes n2"
         "\<forall>p b. files (disk s1) p = Some b \<longrightarrow>
            files (disk (run repr folder peer_id pes s1)) p = Some b \<and>
            (\<forall>u. Download (u, p) \<notin> set n2 \<and> TaskDone (u, p) True \<notin> set n2)"
      by blast
    have r: "run repr folder peer_id (pe # pes) s = run repr folder peer_id pes s1"
      using True by (simp add: s1_def)
    have "trace (run repr folder peer_id (pe # pes) s) = trace s @ (n1 @ n2)"
      using r a(1) b(1) by simp
    moreover have "total (run repr folder peer_id (pe # pes) s) = total s + successes (n1 @ n2)"
      using r a(2) b(2) by (simp add: successes_append)
    moreover have "files (disk (run repr folder peer_id (pe # pes) s)) p = Some c \<and>
        (\<forall>u. Download (u, p) \<notin> set (n1 @ n2) \<and> TaskDone (u, p) True \<notin> set (n1 @ n2))"
      if "files (disk s) p = Some c" for p c
    proof -
      from a(3) that have 1: "files (disk s1) p = Some c"
        and 2: "\<forall>u. Download (u, p) \<notin> set n1 \<and> TaskDone (u, p) True \<notin> set n1" by blast+
      from b(3) 1 have "files (disk (run repr folder peer_id pes s1)) p = Some c"
        and "\<forall>u. Download (u, p) \<notin> set n2 \<and> TaskDone (u, p) True \<notin> set n2" by blast+
      with 2 r show ?thesis by simp
    qed
    ultimately show ?thesis by blast
  qed
qed

lemma get_default_total:
  "get_default resp k d = Inr v \<Longrightarrow> \<exists>v'. get_default resp k' d' = Inr v'"
  by (cases resp) (auto split: option.splits)

lemma process_page_ok:
  fixes peer_id :: int
  assumes "run_tasks (attempts pe) 0 (files (disk s)) tasks = (n, fs, evs)"
    and "get_default resp ''next_from'' JNull = Inr nf"
  defines "st1 \<equiv> AList.update (str_int peer_id) nf (state s)"
  defines "st2 \<equiv> AList.delete (str_int peer_id) st1"
  defines "f1 \<equiv> fst (write_json (write1 pe) (JObj st1) (state_file (disk s)))"
  defines "f2 \<equiv> fst (write_json (write2 pe) (JObj st2) f1)"
  defines "s' \<equiv> process_page peer_id pe resp tasks s"
  shows "trace s' = trace s @ evs @
           (if truthy nf then [StateWrite (JObj st1) (write1 pe)]
            else [StateWrite (JObj st1) (write1 pe), StateWrite (JObj st2) (write2 pe)])"
    and "state_file (disk s') = (if truthy nf then f1 else f2)"
    and "status s' = (if truthy nf then status s else Stopped)"
    and "start_from s' = nf"
    and "state s' = (if truthy nf then st1 else st2)"
    and "total s' = total s + n"
    and "files (disk s') = fs"
  using assms(1,2)
  by (simp_all add: s'_def f2_def f1_def st2_def st1_def process_page_def save_state_Inr Let_def)

lemma step_page:
  assumes "fetch pe = Response resp" and "get_default resp ''items'' (JList []) = Inr items"
    and "truthy items" and "py_iter items = Inr its"
  shows "step repr folder peer_id pe s =
           process_page peer_id pe resp (plan repr folder its)
             (s\<lparr>trace := trace s @
                  [ApiCall (if truthy (start_from s) then Some (start_from s) else None)]\<rparr>)"
  using assms by (simp add: step_def)

lemma step_empty_page:
  assumes "fetch pe = Response resp" and "get_default resp ''items'' (JList []) = Inr items"
    and "\<not> truthy items"
  shows "step repr folder peer_id pe s =
           s\<lparr>trace := trace s @
                [ApiCall (if truthy (start_from s) then Some (start_from s) else None)],
             status := Stopped\<rparr>"
  using assms by (simp add: step_def)

lemma example_plan1:
  "plan (\<lambda>x. []) ''out'' example_items
   = [(''https://vk.com/b.jpg'', ''out/photo_1.jpg''), (''https://vk.com/c.jpg'', ''out/photo_2.jpg'')]"
  by (simp add: example_items_def eval_plan eval_str)

lemma example_step1:
  defines "s1 \<equiv> step (\<lambda>x. []) ''out'' 12345 (example_env (Response example_page1)) example_start"
  shows "status s1 = Running" and "total s1 = 2"
    and "state_file (disk s1) = Valid (JObj [(''12345'', JStr ''abc'')])"
    and "state s1 = [(''12345'', JStr ''abc'')]" and "start_from s1 = JStr ''abc''"
proof -
  define s0 where "s0 = example_start\<lparr>trace := trace example_start @
                  [ApiCall (if truthy (start_from example_start)
                            then Some (start_from example_start) else None)]\<rparr>"
  have f: "fetch (example_env (Response example_page1)) = Response example_page1"
    by (simp add: example_env_def)
  have i: "get_default example_page1 ''items'' (JList []) = Inr (JList example_items)"
    by (simp add: example_page1_def)
  have t: "truthy (JList example_items)" by (simp add: example_items_def)
  have it: "py_iter (JList example_items) = Inr example_items" by simp
  have nf: "get_default example_page1 ''next_from'' JNull = Inr (JStr ''abc'')"
    by (simp add: example_page1_def)
  have st: "s1 = process_page 12345 (example_env (Response example_page1)) example_page1
              [(''https://vk.com/b.jpg'', ''out/photo_1.jpg''), (''https://vk.com/c.jpg'', ''out/photo_2.jpg'')]
              s0"
    unfolding s1_def s0_def step_page [OF f i t it] example_plan1 ..
  obtain n fs evs where r: "run_tasks (attempts (example_env (Response example_page1))) 0
       (files (disk s0))
       [(''https://vk.com/b.jpg'', ''out/photo_1.jpg''), (''https://vk.com/c.jpg'', ''out/photo_2.jpg'')]
       = (n, fs, evs)"
    using prod_cases3 by blast
  then have n: "n = 2"
    by (simp add: s0_def example_env_def example_start_def example_disk_def download_photo_def)
  note pp = process_page_ok [OF r nf, of 12345, folded st]
  show "status s1 = Running" using pp(3) by (simp add: s0_def example_start_def)
  show "total s1 = 2" using pp(6) n by (simp add: s0_def example_start_def)
  show "state_file (disk s1) = Valid (JObj [(''12345'', JStr ''abc'')])"
    using pp(2) by (simp add: s0_def example_start_def example_env_def example_disk_def eval_str)
  show "state s1 = [(''12345'', JStr ''abc'')]"
    using pp(5) by (simp add: s0_def example_start_def eval_str)
  show "start_from s1 = JStr ''abc''" using pp(4) by simp
qed

lemma cursor_persisted:
  assumes "fetch pe = Response resp" and "get_default resp ''items'' (JList []) = Inr items"
    and "truthy items" and "py_iter items = Inr its"
    and "get_default resp ''next_from'' JNull = Inr nf"
    and "write1 pe = Written" and "write2 pe = Written"
  shows "\<exists>st. state_file (disk (step repr folder peer_id pe s)) = Valid (JObj st) \<and>
              map_of st (str_int peer_id) = (if truthy nf then Some nf else None)"
proof -
  define s0 where
    "s0 = s\<lparr>trace := trace s @ [ApiCall (if truthy (start_from s) then Some (start_from s) else None)]\<rparr>"
  have st: "step repr folder peer_id pe s = process_page peer_id pe resp (plan repr folder its) s0"
    unfolding s0_def using assms(1-4) by (rule step_page)
  obtain n fs evs where
    r: "run_tasks (attempts pe) 0 (files (disk s0)) (plan repr folder its) = (n, fs, evs)"
    using prod_cases3 by blast
  show ?thesis
    unfolding st process_page_ok(2) [OF r assms(5)]
    using assms(6,7) by (simp add: update_conv' delete_conv')
qed

lemma example_items_nonempty: "example_items \<noteq> []"
  by (simp add: example_items_def)

lemma example_resumed_total:
  "total (run (\<lambda>x. []) ''out'' 12345
      [example_env (Response example_page1), example_env (Response example_page2)]
      (example_with_file ''old'')) = 1"
  by (simp add: step_def process_page_def save_state_Inr Let_def example_env_def
        example_with_file_def example_start_def example_disk_def example_page1_def
        example_page2_def example_plan1 example_items_nonempty download_photo_def)

section \<open>Properties of the planner\<close>

text \<open>
  C5, as amended. For a non-empty size list whose variants are objects with an integer width or
  none, \<^verbatim>\<open>max\<close> returns the first variant, in list order, whose width is maximal, a missing width
  counting as zero: every variant before it is strictly narrower, none after it is wider. A variant
  without a width is therefore never selected when some variant has a width above zero.
\<close>

theorem widest_variant_selected:
  assumes "xs \<noteq> []" and "\<forall>s\<in>set xs. int_width_variant s"
  shows "\<exists>b pre post. max_by_width (JList xs) = Inr b \<and> xs = pre @ b # post \<and>
           (\<forall>s\<in>set pre. width_of s < width_of b) \<and>
           (\<forall>s\<in>set post. width_of s \<le> width_of b) \<and>
           ((\<exists>s\<in>set xs. 0 < width_of s) \<longrightarrow> has_width b)"
proof -
  from max_by_width_first_max [OF assms] obtain b pre post where
    r: "max_by_width (JList xs) = Inr b" and d: "xs = pre @ b # post"
    and lt: "\<forall>s\<in>set pre. width_of s < width_of b" and le: "\<forall>s\<in>set post. width_of s \<le> width_of b"
    by blast
  have "has_width b" if "s \<in> set xs" and "0 < width_of s" for s
  proof (rule ccontr)
    assume "\<not> has_width b"
    then have "width_of b = 0" by (rule no_width_zero)
    moreover have "width_of s \<le> width_of b" using that(1) d lt le by auto
    ultimately show False using that(2) by simp
  qed
  with r d lt le show ?thesis by blast
qed

theorem widest_variant_selected_witness:
  "example_sizes \<noteq> [] \<and> list_all int_width_variant example_sizes \<and>
   max_by_width (JList example_sizes) = Inr (example_variant ''https://vk.com/b.jpg'' 600) \<and>
   (\<exists>s\<in>set example_sizes. 0 < width_of s) \<and>
   has_width (example_variant ''https://vk.com/b.jpg'' 600)"
proof -
  have h1: "example_sizes \<noteq> []" by (simp add: example_sizes_def)
  have h2: "\<forall>s\<in>set example_sizes. int_width_variant s"
    by (simp add: example_sizes_def example_variant_def int_width_variant_def)
  have ev: "max_by_width (JList example_sizes) = Inr (example_variant ''https://vk.com/b.jpg'' 600)"
    by (simp add: example_sizes_def example_variant_def max_by_width_def bind_err_def width_key_def)
  have pos: "\<exists>s\<in>set example_sizes. 0 < width_of s"
    by (simp add: example_sizes_def example_variant_def width_of_def)
  from widest_variant_selected [OF h1 h2] obtain b where
    b: "max_by_width (JList example_sizes) = Inr b"
    and imp: "(\<exists>s\<in>set example_sizes. 0 < width_of s) \<longrightarrow> has_width b"
    by blast
  from b ev have "b = example_variant ''https://vk.com/b.jpg'' 600" by simp
  with imp pos have "has_width (example_variant ''https://vk.com/b.jpg'' 600)" by simp
  with h1 h2 ev pos show ?thesis by (simp add: list_all_iff)
qed

text \<open>
  C5 as stated fails: of two variants, the first without a width and the second with width 0, the
  planner selects the first, although it is not the only variant.
\<close>

theorem missing_width_selected_counterexample:
  "max_by_width (JList [JObj [(''url'', JStr ''https://vk.com/a.jpg'')],
                        example_variant ''https://vk.com/b.jpg'' 0])
     = Inr (JObj [(''url'', JStr ''https://vk.com/a.jpg'')]) \<and>
   \<not> has_width (JObj [(''url'', JStr ''https://vk.com/a.jpg'')]) \<and>
   length [JObj [(''url'', JStr ''https://vk.com/a.jpg'')],
           example_variant ''https://vk.com/b.jpg'' 0] = 2"
  by (simp add: max_by_width_def bind_err_def width_key_def has_width_def example_variant_def)

text \<open>
  C6, as amended. An item that lacks what the planner needs (see \<open>unusable_item\<close>) plans
  nothing and does not disturb the planning of the items around it: the tasks of the page are those
  of the items before it followed by those of the items after it, and when all of these are
  well-formed there is exactly one task for each of them.
\<close>

theorem unusable_item_skipped:
  assumes "unusable_item bad"
  shows "plan_item repr folder bad = None \<and>
         plan repr folder (xs @ bad # ys) = plan repr folder xs @ plan repr folder ys \<and>
         (list_all wf_item (xs @ ys) \<longrightarrow>
            length (plan repr folder (xs @ bad # ys)) = length xs + length ys)"
proof -
  have n: "plan_item repr folder bad = None" using assms by (rule unusable_not_planned)
  have a: "plan repr folder (xs @ bad # ys) = plan repr folder xs @ plan repr folder ys"
    using n by (simp add: plan_append)
  have "length (plan repr folder (xs @ bad # ys)) = length xs + length ys"
    if "list_all wf_item (xs @ ys)"
    using that a plan_all_wf [of "xs @ ys" repr folder] by (simp add: plan_append)
  with n a show ?thesis by blast
qed

theorem unusable_item_skipped_witness:
  "unusable_item example_no_sizes \<and>
   list_all wf_item ([example_item 1 [example_variant ''https://vk.com/a.jpg'' 100,
                                      example_variant ''https://vk.com/b.jpg'' 600]] @
                     [example_item 2 [example_variant ''https://vk.com/c.jpg'' 50]]) \<and>
   plan_item (\<lambda>x. []) ''out'' example_no_sizes = None \<and>
   plan (\<lambda>x. []) ''out''
     ([example_item 1 [example_variant ''https://vk.com/a.jpg'' 100,
                       example_variant ''https://vk.com/b.jpg'' 600]] @
      example_no_sizes # [example_item 2 [example_variant ''https://vk.com/c.jpg'' 50]])
     = [(''https://vk.com/b.jpg'', ''out/photo_1.jpg''), (''https://vk.com/c.jpg'', ''out/photo_2.jpg'')] \<and>
   length (plan (\<lambda>x. []) ''out''
     ([example_item 1 [example_variant ''https://vk.com/a.jpg'' 100,
                       example_variant ''https://vk.com/b.jpg'' 600]] @
      example_no_sizes # [example_item 2 [example_variant ''https://vk.com/c.jpg'' 50]])) = 1 + 1"
proof -
  have u: "unusable_item example_no_sizes"
    by (simp add: unusable_item_def example_no_sizes_def)
  have w: "list_all wf_item ([example_item 1 [example_variant ''https://vk.com/a.jpg'' 100,
                                      example_variant ''https://vk.com/b.jpg'' 600]] @
                     [example_item 2 [example_variant ''https://vk.com/c.jpg'' 50]])"
    by (simp add: wf_item_def wf_variant_def has_str_url_def int_width_variant_def
          example_item_def example_variant_def)
  have p1: "plan (\<lambda>x. []) ''out'' [example_item 1 [example_variant ''https://vk.com/a.jpg'' 100,
                                      example_variant ''https://vk.com/b.jpg'' 600]]
            = [(''https://vk.com/b.jpg'', ''out/photo_1.jpg'')]"
    by (simp add: eval_plan eval_str)
  have p2: "plan (\<lambda>x. []) ''out'' [example_item 2 [example_variant ''https://vk.com/c.jpg'' 50]]
            = [(''https://vk.com/c.jpg'', ''out/photo_2.jpg'')]"
    by (simp add: eval_plan eval_str)
  from unusable_item_skipped [OF u, of "\<lambda>x. []" "''out''"
      "[example_item 1 [example_variant ''https://vk.com/a.jpg'' 100,
                        example_variant ''https://vk.com/b.jpg'' 600]]"
      "[example_item 2 [example_variant ''https://vk.com/c.jpg'' 50]]"] u w p1 p2
  show ?thesis by simp
qed

text \<open>
  C6 as stated fails: an item whose \<^verbatim>\<open>id\<close> is \<^verbatim>\<open>null\<close> is not well-formed, yet it is planned, as
  \<^verbatim>\<open>photo_None.jpg\<close>; a page of one well-formed item and this one yields two tasks.
\<close>

theorem malformed_id_planned_counterexample:
  "wf_item (example_item 7 [example_variant ''https://vk.com/b.jpg'' 600]) \<and>
   \<not> wf_item example_bad_id \<and>
   plan (\<lambda>x. []) ''out'' [example_item 7 [example_variant ''https://vk.com/b.jpg'' 600], example_bad_id]
     = [(''https://vk.com/b.jpg'', ''out/photo_7.jpg''), (''https://vk.com/c.jpg'', ''out/photo_None.jpg'')]"
  by (simp add: eval_plan eval_str wf_item_def wf_variant_def has_str_url_def int_width_variant_def
        example_bad_id_def)

text \<open>
  C4, as amended. The task planned for an item holds the URL of the selected variant, and its path
  is \<^verbatim>\<open>os.path.join\<close> of the folder and \<^verbatim>\<open>photo_{id}.{ext}\<close>, where \<^verbatim>\<open>ext\<close> is the text after the
  last dot of the URL cut at its first question mark. For a folder name that is not empty and does
  not end in a slash this is \<^verbatim>\<open>{folder}/photo_{id}.{ext}\<close>; and when moreover the URL has no
  fragment and its path component contains a dot, it is the destination of the specification.
\<close>

theorem destination_path_shape:
  assumes "plan_item repr folder item = Some (url, path)"
  shows "\<exists>att photo sizes best pid.
           getitem item ''attachment'' = Inr att \<and> getitem att ''photo'' = Inr photo \<and>
           get_default photo ''sizes'' (JList []) = Inr sizes \<and>
           max_by_width sizes = Inr best \<and> getitem best ''url'' = Inr (JStr url) \<and>
           getitem photo ''id'' = Inr pid \<and>
           path = os_path_join folder (''photo_'' @ py_str repr pid @ ''.'' @ stem_extension url) \<and>
           (folder \<noteq> [] \<and> last folder \<noteq> CHR ''/'' \<longrightarrow>
              path = folder @ ''/'' @ ''photo_'' @ py_str repr pid @ ''.'' @ stem_extension url) \<and>
           (folder \<noteq> [] \<and> last folder \<noteq> CHR ''/'' \<and>
            CHR ''#'' \<notin> set url \<and> CHR ''.'' \<in> set (url_path url) \<longrightarrow>
              path = spec_destination folder (py_str repr pid) url)"
proof -
  from plan_item_Some [OF assms] obtain att photo sizes best pid where
    f: "getitem item ''attachment'' = Inr att" "getitem att ''photo'' = Inr photo"
       "get_default photo ''sizes'' (JList []) = Inr sizes"
       "max_by_width sizes = Inr best" "getitem best ''url'' = Inr (JStr url)"
       "getitem photo ''id'' = Inr pid"
    and p: "path = os_path_join folder (''photo_'' @ py_str repr pid @ ''.'' @ stem_extension url)"
    by blast
  have a: "path = folder @ ''/'' @ ''photo_'' @ py_str repr pid @ ''.'' @ stem_extension url"
    if "folder \<noteq> []" "last folder \<noteq> CHR ''/''"
    unfolding p by (rule os_path_join_plain [OF that])
  have b: "path = spec_destination folder (py_str repr pid) url"
    if "folder \<noteq> []" "last folder \<noteq> CHR ''/''" "CHR ''#'' \<notin> set url"
       "CHR ''.'' \<in> set (url_path url)"
    using a [OF that(1,2)] stem_extension_eq_spec [OF that(3,4)]
    by (simp add: spec_destination_def)
  from f p a b show ?thesis by blast
qed

theorem destination_path_shape_witness:
  "plan_item (\<lambda>x. []) ''out''
      (example_item 7 [example_variant ''https://vk.com/a.jpg?size=100'' 100,
                       example_variant ''https://vk.com/b.jpg?size=600'' 600])
     = Some (''https://vk.com/b.jpg?size=600'', ''out/photo_7.jpg'') \<and>
   ''out'' \<noteq> [] \<and> last ''out'' \<noteq> CHR ''/'' \<and>
   CHR ''#'' \<notin> set ''https://vk.com/b.jpg?size=600'' \<and>
   CHR ''.'' \<in> set (url_path ''https://vk.com/b.jpg?size=600'') \<and>
   ''out/photo_7.jpg'' = spec_destination ''out'' (py_str (\<lambda>x. []) (JInt 7)) ''https://vk.com/b.jpg?size=600''"
proof -
  have h: "plan_item (\<lambda>x. []) ''out''
      (example_item 7 [example_variant ''https://vk.com/a.jpg?size=100'' 100,
                       example_variant ''https://vk.com/b.jpg?size=600'' 600])
     = Some (''https://vk.com/b.jpg?size=600'', ''out/photo_7.jpg'')"
    by (simp add: eval_plan eval_str)
  have d: "CHR ''.'' \<in> set (url_path ''https://vk.com/b.jpg?size=600'')"
    by (simp add: url_path_def url_after_authority_def)
  from destination_path_shape [OF h] d
  have "''out/photo_7.jpg'' = spec_destination ''out'' (py_str (\<lambda>x. []) (JInt 7)) ''https://vk.com/b.jpg?size=600''"
    by (auto simp: example_item_def)
  with h d show ?thesis by simp
qed

text \<open>
  C4 as stated fails. For \<^verbatim>\<open>https://vk.com/img\<close> the path component is \<^verbatim>\<open>/img\<close>, with no dot,
  while the planner takes \<^verbatim>\<open>com/img\<close> from the host name; and for the folder \<^verbatim>\<open>out/\<close> the
  planner writes one slash, not two.
\<close>

theorem destination_path_counterexample:
  "plan_item (\<lambda>x. []) ''out'' (example_item 7 [example_variant ''https://vk.com/img'' 100])
     = Some (''https://vk.com/img'', ''out/photo_7.com/img'') \<and>
   spec_destination ''out'' (py_str (\<lambda>x. []) (JInt 7)) ''https://vk.com/img'' = ''out/photo_7./img'' \<and>
   plan_item (\<lambda>x. []) ''out/'' (example_item 7 [example_variant ''https://vk.com/b.jpg'' 100])
     = Some (''https://vk.com/b.jpg'', ''out/photo_7.jpg'') \<and>
   spec_destination ''out/'' (py_str (\<lambda>x. []) (JInt 7)) ''https://vk.com/b.jpg'' = ''out//photo_7.jpg''"
  by (simp add: eval_plan eval_str spec_destination_def spec_extension_def url_path_def
        url_after_authority_def)

section \<open>Properties of the executor and of the fetch loop\<close>

text \<open>
  C3. A task whose destination path exists is skipped: \<^verbatim>\<open>download_photo\<close> returns \<^verbatim>\<open>False\<close>, makes
  no request and leaves every file as it is. Hence, from any state of the loop and whatever the
  outside answers afterwards, a file that is present keeps its bytes, no request is made for a task
  with its path, no such task is reported as newly downloaded, and the reported count grows only
  by the tasks that are.
\<close>

theorem existing_file_not_fetched:
  assumes "files (disk s) path = Some bytes"
  shows "download_photo a (files (disk s)) (url, path) = (False, files (disk s), []) \<and>
         files (disk (run repr folder peer_id pes s)) path = Some bytes \<and>
         (\<exists>new. trace (run repr folder peer_id pes s) = trace s @ new \<and>
            total (run repr folder peer_id pes s) = total s + successes new \<and>
            (\<forall>u. Download (u, path) \<notin> set new \<and> TaskDone (u, path) True \<notin> set new))"
proof -
  have "download_photo a (files (disk s)) (url, path) = (False, files (disk s), [])"
    using assms by (simp add: download_photo_existing)
  with run_spec [of repr folder peer_id pes s] assms show ?thesis by blast
qed

theorem existing_file_not_fetched_witness:
  "files (disk (example_with_file ''old'')) ''out/photo_1.jpg'' = Some ''old'' \<and>
   download_photo (Streamed ''jpeg'' True) (files (disk (example_with_file ''old'')))
      (''https://vk.com/b.jpg'', ''out/photo_1.jpg'')
     = (False, files (disk (example_with_file ''old'')), []) \<and>
   files (disk (run (\<lambda>x. []) ''out'' 12345
      [example_env (Response example_page1), example_env (Response example_page2)]
      (example_with_file ''old''))) ''out/photo_1.jpg'' = Some ''old'' \<and>
   (\<exists>new. trace (run (\<lambda>x. []) ''out'' 12345
        [example_env (Response example_page1), example_env (Response example_page2)]
        (example_with_file ''old'')) = trace (example_with_file ''old'') @ new \<and>
      total (run (\<lambda>x. []) ''out'' 12345
        [example_env (Response example_page1), example_env (Response example_page2)]
        (example_with_file ''old'')) = total (example_with_file ''old'') + successes new \<and>
      (\<forall>u. Download (u, ''out/photo_1.jpg'') \<notin> set new \<and>
           TaskDone (u, ''out/photo_1.jpg'') True \<notin> set new)) \<and>
   total (run (\<lambda>x. []) ''out'' 12345
      [example_env (Response example_page1), example_env (Response example_page2)]
      (example_with_file ''old'')) = 1"
proof -
  have h: "files (disk (example_with_file ''old'')) ''out/photo_1.jpg'' = Some ''old''"
    by (simp add: example_with_file_def)
  note c = existing_file_not_fetched [OF h, of "Streamed ''jpeg'' True" "''https://vk.com/b.jpg''"
      "\<lambda>x. []" "''out''" 12345
      "[example_env (Response example_page1), example_env (Response example_page2)]"]
  show ?thesis using h c example_resumed_total by (intro conjI) blast+
qed

text \<open>
  C9. A download that fails after its file was opened leaves the bytes written so far at the
  destination path. From any state in which that file is present, and whatever happens afterwards,
  the file keeps those bytes and executing the task again returns \<^verbatim>\<open>False\<close> without a request and
  without a write.
\<close>

theorem partial_file_kept:
  assumes "fs path = None" and "files (disk s) path = Some part"
  shows "download_photo (Streamed part False) fs (url, path)
           = (False, fs(path \<mapsto> part), [Download (url, path)]) \<and>
         files (disk (run repr folder peer_id pes s)) path = Some part \<and>
         download_photo a (files (disk (run repr folder peer_id pes s))) (url, path)
           = (False, files (disk (run repr folder peer_id pes s)), [])"
proof -
  have 1: "download_photo (Streamed part False) fs (url, path)
             = (False, fs(path \<mapsto> part), [Download (url, path)])"
    using assms(1) by (simp add: download_photo_def)
  from run_spec [of repr folder peer_id pes s] assms(2)
  have 2: "files (disk (run repr folder peer_id pes s)) path = Some part" by blast
  then have "download_photo a (files (disk (run repr folder peer_id pes s))) (url, path)
               = (False, files (disk (run repr folder peer_id pes s)), [])"
    by (simp add: download_photo_existing)
  with 1 2 show ?thesis by simp
qed

theorem partial_file_kept_witness:
  "(Map.empty :: files) ''out/photo_1.jpg'' = None \<and>
   files (disk (example_with_file ''jp'')) ''out/photo_1.jpg'' = Some ''jp'' \<and>
   download_photo (Streamed ''jp'' False) Map.empty (''https://vk.com/b.jpg'', ''out/photo_1.jpg'')
     = (False, [''out/photo_1.jpg'' \<mapsto> ''jp''],
        [Download (''https://vk.com/b.jpg'', ''out/photo_1.jpg'')]) \<and>
   files (disk (run (\<lambda>x. []) ''out'' 12345
      [example_env (Response example_page1), example_env (Response example_page2)]
      (example_with_file ''jp''))) ''out/photo_1.jpg'' = Some ''jp'' \<and>
   download_photo (Streamed ''jpeg'' True)
      (files (disk (run (\<lambda>x. []) ''out'' 12345
         [example_env (Response example_page1), example_env (Response example_page2)]
         (example_with_file ''jp''))))
      (''https://vk.com/b.jpg'', ''out/photo_1.jpg'')
     = (False,
        files (disk (run (\<lambda>x. []) ''out'' 12345
         [example_env (Response example_page1), example_env (Response example_page2)]
         (example_with_file ''jp''))), [])"
proof -
  have h1: "(Map.empty :: files) ''out/photo_1.jpg'' = None" by simp
  have h2: "files (disk (example_with_file ''jp'')) ''out/photo_1.jpg'' = Some ''jp''"
    by (simp add: example_with_file_def)
  note c = partial_file_kept [OF h1 h2, of "''https://vk.com/b.jpg''" "\<lambda>x. []" "''out''" 12345
      "[example_env (Response example_page1), example_env (Response example_page2)]"
      "Streamed ''jpeg'' True"]
  show ?thesis by (rule conjI [OF h1 conjI [OF h2 c]])
qed

text \<open>
  C2. In an iteration that processes a page, the events split into a first part, which holds no
  write of the state file and reports every planned task of the page as done, and a second part,
  not empty, which holds the writes of the state file and nothing else.
\<close>

theorem cursor_saved_after_batch:
  assumes "fetch pe = Response resp" and "get_default resp ''items'' (JList []) = Inr items"
    and "truthy items" and "py_iter items = Inr its"
  shows "\<exists>before saves.
           trace (step repr folder peer_id pe s) = trace s @ before @ saves \<and>
           list_all (\<lambda>e. \<not> is_save e) before \<and>
           done_tasks before = plan repr folder its \<and>
           saves \<noteq> [] \<and> list_all is_save saves"
proof -
  define s0 where
    "s0 = s\<lparr>trace := trace s @ [ApiCall (if truthy (start_from s) then Some (start_from s) else None)]\<rparr>"
  have st: "step repr folder peer_id pe s = process_page peer_id pe resp (plan repr folder its) s0"
    unfolding s0_def using assms by (rule step_page)
  obtain n fs evs where
    r: "run_tasks (attempts pe) 0 (files (disk s0)) (plan repr folder its) = (n, fs, evs)"
    by (cases "run_tasks (attempts pe) 0 (files (disk s0)) (plan repr folder its)") auto
  from get_default_total [OF assms(2)] obtain nf where
    nf: "get_default resp ''next_from'' JNull = Inr nf" by blast
  define saves where
    "saves = (if truthy nf
       then [StateWrite (JObj (AList.update (str_int peer_id) nf (state s0))) (write1 pe)]
       else [StateWrite (JObj (AList.update (str_int peer_id) nf (state s0))) (write1 pe),
             StateWrite (JObj (AList.delete (str_int peer_id)
                (AList.update (str_int peer_id) nf (state s0)))) (write2 pe)])"
  let ?before = "[ApiCall (if truthy (start_from s) then Some (start_from s) else None)] @ evs"
  have "trace (step repr folder peer_id pe s) = trace s0 @ evs @ saves"
    unfolding st saves_def by (rule process_page_ok(1) [OF r nf])
  then have "trace (step repr folder peer_id pe s) = trace s @ ?before @ saves"
    by (simp add: s0_def)
  moreover have "list_all (\<lambda>e. \<not> is_save e) ?before"
    using run_tasks_spec [OF r] by simp
  moreover have "done_tasks ?before = plan repr folder its"
    using run_tasks_spec [OF r] by simp
  moreover have "saves \<noteq> [] \<and> list_all is_save saves"
    by (simp add: saves_def)
  ultimately show ?thesis by blast
qed

theorem cursor_saved_after_batch_witness:
  "fetch (example_env (Response example_page1)) = Response example_page1 \<and>
   get_default example_page1 ''items'' (JList []) = Inr (JList example_items) \<and>
   truthy (JList example_items) \<and>
   py_iter (JList example_items) = Inr example_items \<and>
   (\<exists>before saves.
      trace (step (\<lambda>x. []) ''out'' 12345 (example_env (Response example_page1)) example_start)
        = trace example_start @ before @ saves \<and>
      list_all (\<lambda>e. \<not> is_save e) before \<and>
      done_tasks before = plan (\<lambda>x. []) ''out'' example_items \<and>
      saves \<noteq> [] \<and> list_all is_save saves)"
proof -
  have f: "fetch (example_env (Response example_page1)) = Response example_page1"
    by (simp add: example_env_def)
  have i: "get_default example_page1 ''items'' (JList []) = Inr (JList example_items)"
    by (simp add: example_page1_def)
  have t: "truthy (JList example_items)" by (simp add: example_items_def)
  have it: "py_iter (JList example_items) = Inr example_items" by simp
  note c = cursor_saved_after_batch [OF f i t it, of "\<lambda>x. []" "''out''" 12345 example_start]
  show ?thesis by (rule conjI [OF f conjI [OF i conjI [OF t conjI [OF it c]]]])
qed

text \<open>
  C7. When the fetch raises \<^verbatim>\<open>ApiError\<close> or any other exception, the loop is left at once: one
  request was made and none follows, whatever the outside would have answered; a message is
  printed; the files, the state file and the state in memory are what they were.
\<close>

theorem fetch_error_stops_loop:
  assumes "status s = Running" and "fetch pe = ApiError e \<or> fetch pe = OtherError"
  shows "status (run repr folder peer_id (pe # rest) s) = Stopped \<and>
         disk (run repr folder peer_id (pe # rest) s) = disk s \<and>
         state (run repr folder peer_id (pe # rest) s) = state s \<and>
         (\<exists>msg. trace (run repr folder peer_id (pe # rest) s) =
            trace s @ [ApiCall (if truthy (start_from s) then Some (start_from s) else None),
                       Print msg])"
proof -
  define s1 where "s1 = step repr folder peer_id pe s"
  have s1: "status s1 = Stopped \<and> disk s1 = disk s \<and> state s1 = state s \<and>
            (\<exists>msg. trace s1 =
               trace s @ [ApiCall (if truthy (start_from s) then Some (start_from s) else None),
                          Print msg])"
    using assms(2) by (auto simp: s1_def step_def)
  have "run repr folder peer_id (pe # rest) s = s1"
    using assms(1) s1 by (cases rest) (simp_all add: s1_def)
  with s1 show ?thesis by simp
qed

theorem fetch_error_stops_loop_witness:
  "status example_start = Running \<and>
   fetch (example_env (ApiError ''Too many requests'')) = ApiError ''Too many requests'' \<and>
   status (run (\<lambda>x. []) ''out'' 12345
      [example_env (ApiError ''Too many requests''), example_env (Response example_page1)]
      example_start) = Stopped \<and>
   disk (run (\<lambda>x. []) ''out'' 12345
      [example_env (ApiError ''Too many requests''), example_env (Response example_page1)]
      example_start) = disk example_start \<and>
   trace (run (\<lambda>x. []) ''out'' 12345
      [example_env (ApiError ''Too many requests''), example_env (Response example_page1)]
      example_start)
     = [ApiCall None, Print (CHR 0x0A # ''VK API error: Too many requests'')]"
proof -
  have r: "status example_start = Running" by (simp add: example_start_def)
  have f: "fetch (example_env (ApiError ''Too many requests'')) = ApiError ''Too many requests''"
    by (simp add: example_env_def)
  then have f': "fetch (example_env (ApiError ''Too many requests'')) = ApiError ''Too many requests''
      \<or> fetch (example_env (ApiError ''Too many requests'')) = OtherError" by simp
  note c = fetch_error_stops_loop [OF r f', of "\<lambda>x. []" "''out''" 12345
      "[example_env (Response example_page1)]"]
  have tr: "trace (run (\<lambda>x. []) ''out'' 12345
      [example_env (ApiError ''Too many requests''), example_env (Response example_page1)]
      example_start)
     = [ApiCall None, Print (CHR 0x0A # ''VK API error: Too many requests'')]"
    by (simp add: step_def example_env_def example_start_def)
  from r f c tr show ?thesis by blast
qed

text \<open>
  C8. \<^verbatim>\<open>load_state\<close> always returns a value, and returns \<^verbatim>\<open>{}\<close> when the file is absent,
  unreadable or not JSON; \<^verbatim>\<open>save_state\<close> always returns, whatever the write does; and whether the
  loop goes on after an iteration does not depend on how the writes of the state file went.
\<close>

theorem resume_store_never_raises:
  "(\<exists>v. load_state f = Inr v) \<and>
   load_state Absent = Inr (JObj []) \<and>
   load_state Unreadable = Inr (JObj []) \<and>
   load_state Malformed = Inr (JObj []) \<and>
   (\<exists>f'. save_state w v f = Inr f') \<and>
   status (step repr folder peer_id (pe\<lparr>write1 := w1, write2 := w2\<rparr>) s)
     = status (step repr folder peer_id pe s)"
proof -
  have a: "\<exists>v. load_state f = Inr v"
    by (cases f) (simp_all add: load_state_def path_exists_def)
  have b: "load_state Absent = Inr (JObj [])" "load_state Unreadable = Inr (JObj [])"
    "load_state Malformed = Inr (JObj [])"
    by (simp_all add: load_state_def path_exists_def)
  have c: "\<exists>f'. save_state w v f = Inr f'" by (simp add: save_state_Inr)
  have d: "status (step repr folder peer_id (pe\<lparr>write1 := w1, write2 := w2\<rparr>) s)
             = status (step repr folder peer_id pe s)"
    by (simp add: step_def process_page_def save_state_Inr Let_def
          split: api_result.splits sum.splits prod.splits)
  from a b c d show ?thesis by blast
qed

text \<open>
  C1, on the scenario of the specification. After the first page the state file holds the cursor
  \<^verbatim>\<open>abc\<close> for the conversation. The second page has no items: the loop is left by the first
  \<^verbatim>\<open>break\<close>, before any write, and the state file still holds \<^verbatim>\<open>{"12345": "abc"}\<close>, not \<^verbatim>\<open>{}\<close>.
\<close>

theorem empty_page_keeps_cursor:
  "start 12345 example_disk = Inr example_start \<and>
   state_file (disk (run (\<lambda>x. []) ''out'' 12345
      [example_env (Response example_page1)] example_start))
     = Valid (JObj [(''12345'', JStr ''abc'')]) \<and>
   status (run (\<lambda>x. []) ''out'' 12345
      [example_env (Response example_page1), example_env (Response example_page2)] example_start)
     = Stopped \<and>
   total (run (\<lambda>x. []) ''out'' 12345
      [example_env (Response example_page1), example_env (Response example_page2)] example_start)
     = 2 \<and>
   state_file (disk (run (\<lambda>x. []) ''out'' 12345
      [example_env (Response example_page1), example_env (Response example_page2)] example_start))
     = Valid (JObj [(''12345'', JStr ''abc'')])"
proof -
  define s1 where
    "s1 = step (\<lambda>x. []) ''out'' 12345 (example_env (Response example_page1)) example_start"
  note e = example_step1 [folded s1_def]
  have a: "start 12345 example_disk = Inr example_start"
    by (simp add: start_def load_state_def path_exists_def example_disk_def example_start_def
          bind_err_def)
  have r0: "status example_start = Running" by (simp add: example_start_def)
  have r1: "run (\<lambda>x. []) ''out'' 12345 [example_env (Response example_page1)] example_start = s1"
    using r0 by (simp add: s1_def)
  have f: "fetch (example_env (Response example_page2)) = Response example_page2"
    by (simp add: example_env_def)
  have i: "get_default example_page2 ''items'' (JList []) = Inr (JList [])"
    by (simp add: example_page2_def)
  have r2: "run (\<lambda>x. []) ''out'' 12345
      [example_env (Response example_page1), example_env (Response example_page2)] example_start
      = s1\<lparr>trace := trace s1 @
                [ApiCall (if truthy (start_from s1) then Some (start_from s1) else None)],
             status := Stopped\<rparr>"
    using r0 e(1) step_empty_page [OF f i, of "\<lambda>x. []" "''out''" 12345 s1]
    by (simp add: s1_def)
  show ?thesis unfolding r1 r2 using a e by simp
qed

end
